theory Spec2Isabelle
  imports Complex_Main "HOL-Library.Multiset" "HOL-Library.Product_Lexorder"
begin

unbundle bit_operations_syntax

section \<open>Python values used by the planner\<close>

text \<open>
  The exceptions the modelled functions can raise. \<open>InvalidPreference\<close> is the
  \<open>ValueError\<close> raised by \<open>calculate_route_preferences\<close>,
  \<open>InvalidSinglePreference\<close> the \<open>ValueError\<close> raised inside
  \<open>generate_single_route\<close>, and \<open>EmptyReduction\<close> the \<open>ValueError\<close> numpy raises
  for \<open>np.min\<close> of an empty array.
\<close>

datatype error =
    KeyError
  | ZeroDivisionError
  | IndexError
  | InvalidPreference
  | InvalidSinglePreference
  | EmptyReduction

text \<open>
  Distances in \<open>routes.py\<close> are Python floats. They are modelled as real numbers
  extended by the value \<open>float('inf')\<close>, which the module itself produces (as the
  sentinel of a failed distance computation and as the initial entry of the
  dynamic-programming table). Rounding is not modelled.
\<close>

datatype fl = Fin real | PInf

instantiation fl :: linorder
begin

fun less_eq_fl :: "fl \<Rightarrow> fl \<Rightarrow> bool" where
  "less_eq_fl (Fin a) (Fin b) = (a \<le> b)"
| "less_eq_fl PInf (Fin b) = False"
| "less_eq_fl x PInf = True"

definition less_fl :: "fl \<Rightarrow> fl \<Rightarrow> bool" where
  "less_fl x y = (x \<le> y \<and> \<not> y \<le> (x::fl))"

instance
proof
  fix x y z :: fl
  show "(x < y) = (x \<le> y \<and> \<not> y \<le> x)"
    by (simp add: less_fl_def)
  show "x \<le> x"
    by (cases x) simp_all
  show "x \<le> y \<Longrightarrow> y \<le> z \<Longrightarrow> x \<le> z"
    by (cases x; cases y; cases z) simp_all
  show "x \<le> y \<Longrightarrow> y \<le> x \<Longrightarrow> x = y"
    by (cases x; cases y) simp_all
  show "x \<le> y \<or> y \<le> x"
    by (cases x; cases y) auto
qed

end

text \<open>Float addition: anything plus infinity is infinity.\<close>

fun fadd :: "fl \<Rightarrow> fl \<Rightarrow> fl" where
  "fadd (Fin a) (Fin b) = Fin (a + b)"
| "fadd PInf y = PInf"
| "fadd x PInf = PInf"

section \<open>routes.py\<close>

record location =
  name :: string
  latitude :: real
  longitude :: real

text \<open>
  \<open>geodesic\<close> of geopy is an external primitive: it is a parameter of the model, a
  function on two coordinate pairs that returns the distance in kilometres or raises
  (\<open>None\<close>). The \<open>lru_cache\<close> of \<open>calculate_distance\<close> does not change the value
  returned by a pure function.
\<close>

type_synonym coord = "real \<times> real"
type_synonym geodesic = "coord \<Rightarrow> coord \<Rightarrow> real option"

definition calculate_distance :: "geodesic \<Rightarrow> coord \<Rightarrow> coord \<Rightarrow> fl" where
  "calculate_distance geo point1 point2 =
     (case geo point1 point2 of Some d \<Rightarrow> Fin d | None \<Rightarrow> PInf)"

type_synonym distances = "string \<times> string \<Rightarrow> fl option"

text \<open>\<open>itertools.combinations(xs, 2)\<close>: the pairs of positions \<open>i < j\<close>, in lexicographic order.\<close>

fun combinations2 :: "'a list \<Rightarrow> ('a \<times> 'a) list" where
  "combinations2 [] = []"
| "combinations2 (x # xs) = map (Pair x) xs @ combinations2 xs"

definition store_pair :: "geodesic \<Rightarrow> location \<Rightarrow> location \<Rightarrow> distances \<Rightarrow> distances" where
  "store_pair geo a b ds =
     (let d = calculate_distance geo (latitude a, longitude a) (latitude b, longitude b)
      in ds((name a, name b) \<mapsto> d, (name b, name a) \<mapsto> d))"

definition calculate_symmetric_distances :: "geodesic \<Rightarrow> location list \<Rightarrow> location \<Rightarrow> distances" where
  "calculate_symmetric_distances geo relatives tarjan_home =
     (let ds1 = fold (\<lambda>(rel1, rel2). store_pair geo rel1 rel2) (combinations2 relatives) Map.empty
      in fold (\<lambda>relative. store_pair geo tarjan_home relative) relatives ds1)"

text \<open>A dictionary read: a missing key raises \<open>KeyError\<close>.\<close>

definition lookup :: "distances \<Rightarrow> string \<times> string \<Rightarrow> error + fl" where
  "lookup ds k = (case ds k of None \<Rightarrow> Inl KeyError | Some d \<Rightarrow> Inr d)"

text \<open>A \<open>for\<close> loop whose body may raise: the first exception ends the loop.\<close>

fun foldE :: "('a \<Rightarrow> 's \<Rightarrow> error + 's) \<Rightarrow> 'a list \<Rightarrow> 's \<Rightarrow> error + 's" where
  "foldE f [] s = Inr s"
| "foldE f (x # xs) s = (case f x s of Inl e \<Rightarrow> Inl e | Inr s' \<Rightarrow> foldE f xs s')"

text \<open>
  The tables \<open>dp\<close> and \<open>parent\<close> are indexed by (node, bitmask). Every index the
  loops use is in range (node \<open>< n\<close>, mask \<open>< 2 ^ n\<close>), so the nested lists are modelled
  as total functions on index pairs, initialised to \<open>inf\<close> and \<open>-1\<close>. Bitmasks are
  Python's unbounded integers, here natural numbers.
\<close>

type_synonym tables = "(nat \<times> nat \<Rightarrow> fl) \<times> (nat \<times> nat \<Rightarrow> int)"

definition init_tables :: "tables" where
  "init_tables = ((\<lambda>_. PInf), (\<lambda>_. - 1))"

definition init_step :: "string list \<Rightarrow> distances \<Rightarrow> string \<Rightarrow> nat \<Rightarrow> tables \<Rightarrow> error + tables" where
  "init_step relative_names ds tarjan_home_name i tabs =
     (case lookup ds (tarjan_home_name, relative_names ! i) of
        Inl e \<Rightarrow> Inl e
      | Inr d \<Rightarrow> Inr ((fst tabs)((i, push_bit i 1) := d), snd tabs))"

definition relax :: "string list \<Rightarrow> distances \<Rightarrow> nat \<Rightarrow> nat \<Rightarrow> nat \<Rightarrow> tables \<Rightarrow> error + tables" where
  "relax relative_names ds msk u v tabs =
     (let new_mask = msk OR push_bit v 1 in
      case lookup ds (relative_names ! u, relative_names ! v) of
        Inl e \<Rightarrow> Inl e
      | Inr d \<Rightarrow>
          (let new_distance = fadd (fst tabs (u, msk)) d in
           if new_distance < fst tabs (v, new_mask)
           then Inr ((fst tabs)((v, new_mask) := new_distance),
                     (snd tabs)((v, new_mask) := int u))
           else Inr tabs))"

definition loop_v :: "string list \<Rightarrow> distances \<Rightarrow> nat \<Rightarrow> nat \<Rightarrow> nat \<Rightarrow> tables \<Rightarrow> error + tables" where
  "loop_v relative_names ds n msk u =
     foldE (\<lambda>v tabs. if \<not> (msk AND push_bit v 1 \<noteq> 0)
                     then relax relative_names ds msk u v tabs else Inr tabs) [0..<n]"

definition loop_u :: "string list \<Rightarrow> distances \<Rightarrow> nat \<Rightarrow> nat \<Rightarrow> tables \<Rightarrow> error + tables" where
  "loop_u relative_names ds n msk =
     foldE (\<lambda>u tabs. if msk AND push_bit u 1 \<noteq> 0
                     then loop_v relative_names ds n msk u tabs else Inr tabs) [0..<n]"

definition loop_mask :: "string list \<Rightarrow> distances \<Rightarrow> nat \<Rightarrow> tables \<Rightarrow> error + tables" where
  "loop_mask relative_names ds n = foldE (loop_u relative_names ds n) [1..<push_bit n 1]"

text \<open>The scan for the cheapest end node: \<open>(min_distance, last_node)\<close>.\<close>

definition select_last :: "(nat \<times> nat \<Rightarrow> fl) \<Rightarrow> nat \<Rightarrow> nat \<Rightarrow> fl \<times> int" where
  "select_last dp n final_mask =
     fold (\<lambda>i (min_distance, last_node).
             if dp (i, final_mask) < min_distance then (dp (i, final_mask), int i)
             else (min_distance, last_node)) [0..<n] (PInf, - 1)"

text \<open>
  The \<open>while last_node != -1\<close> loop. Nothing in its text bounds the number of
  iterations, so it is a partial function: \<open>None\<close> is a run that never leaves the loop.
\<close>

partial_function (option) reconstruct ::
  "string list \<Rightarrow> (nat \<times> nat \<Rightarrow> int) \<Rightarrow> string list \<Rightarrow> nat \<Rightarrow> int \<Rightarrow> string list option" where
  "reconstruct relative_names parent route msk last_node =
     (if last_node \<noteq> - 1
      then reconstruct relative_names parent (route @ [relative_names ! nat last_node])
             (msk XOR push_bit (nat last_node) 1) (parent (nat last_node, msk))
      else Some route)"

declare reconstruct.simps [code]

record route_result =
  rr_route :: "string list"
  rr_distance :: fl

definition held_karp :: "string list \<Rightarrow> distances \<Rightarrow> string \<Rightarrow> error + tables" where
  "held_karp relative_names ds tarjan_home_name =
     (let n = length relative_names in
      case foldE (init_step relative_names ds tarjan_home_name) [0..<n] init_tables of
        Inl e \<Rightarrow> Inl e
      | Inr tabs \<Rightarrow> loop_mask relative_names ds n tabs)"

text \<open>
  \<open>find_shortest_route\<close>: the list built by the loop is reversed before the origin is
  put in front. The outer \<open>option\<close> is termination of the reconstruction
  loop, the sum is the raised exception or the returned dictionary.
\<close>

definition find_shortest_route ::
  "location list \<Rightarrow> distances \<Rightarrow> string \<Rightarrow> (error + route_result) option" where
  "find_shortest_route relatives ds tarjan_home_name =
     (if relatives = [] then Some (Inr \<lparr>rr_route = [], rr_distance = Fin 0\<rparr>)
      else if length relatives = 1 then
        (let relative = relatives ! 0 in
         case lookup ds (tarjan_home_name, name relative) of
           Inl e \<Rightarrow> Some (Inl e)
         | Inr d1 \<Rightarrow>
            (case lookup ds (name relative, tarjan_home_name) of
               Inl e \<Rightarrow> Some (Inl e)
             | Inr d2 \<Rightarrow>
                 Some (Inr \<lparr>rr_route = [tarjan_home_name, name relative], rr_distance = fadd d1 d2\<rparr>)))
      else
        (let relative_names = map name relatives;
             n = length relative_names in
         case held_karp relative_names ds tarjan_home_name of
           Inl e \<Rightarrow> Some (Inl e)
         | Inr (dp, parent) \<Rightarrow>
            (let final_mask = push_bit n 1 - 1;
                 (min_distance, last_node) = select_last dp n final_mask in
             case reconstruct relative_names parent [] final_mask last_node of
               None \<Rightarrow> None
             | Some r \<Rightarrow>
                 Some (Inr \<lparr>rr_route = [tarjan_home_name] @ rev r, rr_distance = min_distance\<rparr>))))"

section \<open>modes.py\<close>

text \<open>
  A transport mode is a dictionary read from JSON; a key may be missing, and reading a
  missing key raises \<open>KeyError\<close>. The numbers of \<open>modes.py\<close> are modelled as real
  numbers: the leg distances it reads from the distance dictionary are the finite ones
  (arithmetic and sorting on \<open>inf\<close> and \<open>nan\<close> are not modelled).
\<close>

record transport_mode =
  tm_mode :: "string option"
  speed_kmh :: "real option"
  cost_per_km :: "real option"
  transfer_time_min :: "real option"

record mode_detail =
  mode :: string
  travel_time :: real
  transfer_time :: real
  total_time :: real
  cost :: real

type_synonym leg_distances = "string \<times> string \<Rightarrow> real option"

text \<open>A loop that appends one computed element per iteration and stops at the first exception.\<close>

fun mapE :: "('a \<Rightarrow> error + 'b) \<Rightarrow> 'a list \<Rightarrow> error + 'b list" where
  "mapE f [] = Inr []"
| "mapE f (x # xs) =
     (case f x of
        Inl e \<Rightarrow> Inl e
      | Inr y \<Rightarrow> (case mapE f xs of Inl e \<Rightarrow> Inl e | Inr ys \<Rightarrow> Inr (y # ys)))"

text \<open>
  The body of the loop of \<open>calculate_mode_details\<close>, in the order the keys are read:
  \<open>speed_kmh\<close> (and the division by it), \<open>transfer_time_min\<close>, \<open>cost_per_km\<close>, \<open>mode\<close>.
\<close>

definition mode_entry :: "real \<Rightarrow> transport_mode \<Rightarrow> error + mode_detail" where
  "mode_entry distance m =
     (case speed_kmh m of
        None \<Rightarrow> Inl KeyError
      | Some speed \<Rightarrow>
         if speed = 0 then Inl ZeroDivisionError
         else
           (let travel = (distance / speed) * 60 in
            case transfer_time_min m of
              None \<Rightarrow> Inl KeyError
            | Some transfer \<Rightarrow>
               (let total = travel + transfer in
                case cost_per_km m of
                  None \<Rightarrow> Inl KeyError
                | Some per_km \<Rightarrow>
                   (let leg_cost = distance * per_km in
                    case tm_mode m of
                      None \<Rightarrow> Inl KeyError
                    | Some mode_name \<Rightarrow>
                        Inr \<lparr>mode = mode_name, travel_time = travel,
                             transfer_time = transfer, total_time = total,
                             cost = leg_cost\<rparr>))))"

definition calculate_mode_details ::
  "string \<Rightarrow> string \<Rightarrow> real \<Rightarrow> transport_mode list \<Rightarrow> error + mode_detail list" where
  "calculate_mode_details from_node to_node distance transport_modes =
     mapE (mode_entry distance) transport_modes"

subsection \<open>TOPSIS\<close>

text \<open>\<open>np.sqrt(np.sum(xs ** 2))\<close>\<close>

definition vector_norm :: "real list \<Rightarrow> real" where
  "vector_norm xs = sqrt (sum_list (map (\<lambda>x. x\<^sup>2) xs))"

text \<open>
  \<open>np.sqrt((weighted_times - p[0]) ** 2 + (weighted_costs - p[1]) ** 2)\<close>, the
  distances of the candidates from a point \<open>p\<close>, and the closeness coefficients
  \<open>d_neg / (d_pos + d_neg + 1e-6)\<close>.
\<close>

definition distances_to :: "real list \<Rightarrow> real list \<Rightarrow> real \<times> real \<Rightarrow> real list" where
  "distances_to weighted_times weighted_costs p =
     map2 (\<lambda>t c. sqrt ((t - fst p)\<^sup>2 + (c - snd p)\<^sup>2)) weighted_times weighted_costs"

definition closeness :: "real list \<Rightarrow> real list \<Rightarrow> real list" where
  "closeness distances_to_ideal distances_to_anti_ideal =
     map2 (\<lambda>d_pos d_neg. d_neg / (d_pos + d_neg + 0.000001))
       distances_to_ideal distances_to_anti_ideal"

text \<open>
  The closeness scores of a non-empty candidate list. A column whose entries are all
  zero has norm zero; numpy then computes \<open>0 / 0 = nan\<close> for every entry of the column
  (a warning, not an exception), and \<open>nan\<close> propagates through the minimum, the
  distances and the quotient to every score. \<open>None\<close> stands for that outcome, a score
  array of \<open>nan\<close> only.
\<close>

definition topsis_scores :: "mode_detail list \<Rightarrow> real \<Rightarrow> real \<Rightarrow> real list option" where
  "topsis_scores mode_details time_weight cost_weight =
     (let total_times = map total_time mode_details;
          costs = map cost mode_details;
          nt = vector_norm total_times;
          nc = vector_norm costs
      in if nt = 0 \<or> nc = 0 then None
         else
           (let norm_times = map (\<lambda>x. x / nt) total_times;
                norm_costs = map (\<lambda>x. x / nc) costs;
                weighted_times = map (\<lambda>x. x * time_weight) norm_times;
                weighted_costs = map (\<lambda>x. x * cost_weight) norm_costs;
                ideal_solution = (Min (set weighted_times), Min (set weighted_costs));
                anti_ideal_solution = (Max (set weighted_times), Max (set weighted_costs));
                distances_to_ideal = distances_to weighted_times weighted_costs ideal_solution;
                distances_to_anti_ideal =
                  distances_to weighted_times weighted_costs anti_ideal_solution
            in Some (closeness distances_to_ideal distances_to_anti_ideal)))"

text \<open>
  \<open>np.argsort\<close>: the indices in ascending order of score. numpy's default sort fixes
  no order among equal scores: its portable implementation is an insertion sort, hence
  stable, on at most 16 elements, and may order ties otherwise on longer arrays. The model takes the stable
  order throughout, so it is exact for catalogues of at most 16 modes and for longer
  ones without ties; the theorems below do not depend on the order of ties. On an array
  of \<open>nan\<close> only no element is smaller than another, and the stable order is the order
  of the indices.
\<close>

definition argsort :: "real list \<Rightarrow> nat list" where
  "argsort xs = sort_key (\<lambda>i. xs ! i) [0..<length xs]"

definition topsis_evaluation ::
  "mode_detail list \<Rightarrow> real \<Rightarrow> real \<Rightarrow> error + mode_detail list" where
  "topsis_evaluation mode_details time_weight cost_weight =
     (if mode_details = [] then Inl EmptyReduction
      else
        (let top_indices =
               (case topsis_scores mode_details time_weight cost_weight of
                  None \<Rightarrow> rev [0..<length mode_details]
                | Some scores \<Rightarrow> rev (argsort scores))
         in Inr (map (\<lambda>i. mode_details ! i) top_indices)))"

subsection \<open>Route alternatives\<close>

record segment =
  from_node :: string
  to_node :: string
  seg_distance :: real
  selected_mode :: mode_detail

text \<open>
  \<open>sorted_modes[i]\<close> if it exists, else \<open>sorted_modes[-1]\<close>, which raises
  \<open>IndexError\<close> on an empty list.
\<close>

definition select_rank :: "nat \<Rightarrow> mode_detail list \<Rightarrow> error + mode_detail" where
  "select_rank i sorted_modes =
     (if i < length sorted_modes then Inr (sorted_modes ! i)
      else if sorted_modes = [] then Inl IndexError
      else Inr (last sorted_modes))"

text \<open>
  \<open>sorted(mode_details, key=...)\<close> is a stable sort by a pair of numbers compared
  lexicographically, as \<open>sort_key\<close> is on pairs of reals.
\<close>

definition sort_modes :: "string \<Rightarrow> mode_detail list \<Rightarrow> error + mode_detail list" where
  "sort_modes preference mode_details =
     (if preference = ''least_time''
      then Inr (sort_key (\<lambda>x. (total_time x, cost x)) mode_details)
      else if preference = ''least_cost''
      then Inr (sort_key (\<lambda>x. (cost x, total_time x)) mode_details)
      else Inl InvalidSinglePreference)"

text \<open>The body of the inner loop of \<open>generate_single_route\<close>, for alternative \<open>i\<close> and leg \<open>j\<close>.\<close>

definition single_segment ::
  "string list \<Rightarrow> leg_distances \<Rightarrow> transport_mode list \<Rightarrow> string \<Rightarrow> nat \<Rightarrow> nat
     \<Rightarrow> error + segment" where
  "single_segment route distances transport_modes preference i j =
     (let from_node = route ! j; to_node = route ! (j + 1) in
      case distances (from_node, to_node) of
        None \<Rightarrow> Inl KeyError
      | Some distance \<Rightarrow>
         (case calculate_mode_details from_node to_node distance transport_modes of
            Inl e \<Rightarrow> Inl e
          | Inr mode_details \<Rightarrow>
             (case sort_modes preference mode_details of
                Inl e \<Rightarrow> Inl e
              | Inr sorted_modes \<Rightarrow>
                 (case select_rank i sorted_modes of
                    Inl e \<Rightarrow> Inl e
                  | Inr best_mode \<Rightarrow>
                      Inr \<lparr>from_node = from_node, to_node = to_node,
                           seg_distance = distance, selected_mode = best_mode\<rparr>))))"

definition generate_single_route ::
  "string list \<Rightarrow> leg_distances \<Rightarrow> transport_mode list \<Rightarrow> string
     \<Rightarrow> error + segment list list" where
  "generate_single_route route distances transport_modes preference =
     mapE (\<lambda>i. mapE (single_segment route distances transport_modes preference i)
                  [0..<length route - 1])
          [0..<3]"

definition weight_combinations :: "(real \<times> real) list" where
  "weight_combinations = [(0.75, 0.25), (0.80, 0.2), (0.85, 0.15)]"

text \<open>The body of the inner loop of \<open>calculate_balanced_route\<close>, for one weight pair and leg \<open>i\<close>.\<close>

definition balanced_segment ::
  "string list \<Rightarrow> leg_distances \<Rightarrow> transport_mode list \<Rightarrow> real \<Rightarrow> real \<Rightarrow> nat
     \<Rightarrow> error + segment" where
  "balanced_segment route distances transport_modes time_weight cost_weight i =
     (let from_node = route ! i; to_node = route ! (i + 1) in
      case distances (from_node, to_node) of
        None \<Rightarrow> Inl KeyError
      | Some distance \<Rightarrow>
         (case calculate_mode_details from_node to_node distance transport_modes of
            Inl e \<Rightarrow> Inl e
          | Inr mode_details \<Rightarrow>
             (case topsis_evaluation mode_details time_weight cost_weight of
                Inl e \<Rightarrow> Inl e
              | Inr best_modes \<Rightarrow>
                 (case best_modes of
                    [] \<Rightarrow> Inl IndexError
                  | best_mode # _ \<Rightarrow>
                      Inr \<lparr>from_node = from_node, to_node = to_node,
                           seg_distance = distance, selected_mode = best_mode\<rparr>))))"

definition path_signature :: "segment list \<Rightarrow> string list" where
  "path_signature alternative = map (\<lambda>segment. mode (selected_mode segment)) alternative"

text \<open>The de-duplication loop: \<open>(seen_paths, final_alternatives)\<close>.\<close>

definition distinct_alternatives :: "segment list list \<Rightarrow> string list set \<times> segment list list" where
  "distinct_alternatives all_alternatives =
     fold (\<lambda>alternative (seen_paths, final_alternatives).
             if path_signature alternative \<notin> seen_paths
             then (insert (path_signature alternative) seen_paths,
                   final_alternatives @ [alternative])
             else (seen_paths, final_alternatives))
          all_alternatives ({}, [])"

definition calculate_balanced_route ::
  "string list \<Rightarrow> leg_distances \<Rightarrow> transport_mode list \<Rightarrow> error + segment list list" where
  "calculate_balanced_route route distances transport_modes =
     (case mapE (\<lambda>(time_weight, cost_weight).
                   mapE (balanced_segment route distances transport_modes time_weight cost_weight)
                        [0..<length route - 1])
                weight_combinations of
        Inl e \<Rightarrow> Inl e
      | Inr all_alternatives \<Rightarrow>
         (let final_alternatives = snd (distinct_alternatives all_alternatives)
          in if length final_alternatives < 3 then Inr (take 3 all_alternatives)
             else Inr final_alternatives))"

definition calculate_route_preferences ::
  "string list \<Rightarrow> leg_distances \<Rightarrow> transport_mode list \<Rightarrow> string
     \<Rightarrow> error + segment list list" where
  "calculate_route_preferences route distances transport_modes preference =
     (if preference = ''balanced_topsis''
      then calculate_balanced_route route distances transport_modes
      else if preference = ''least_time''
      then generate_single_route route distances transport_modes preference
      else if preference = ''least_cost''
      then generate_single_route route distances transport_modes preference
      else Inl InvalidPreference)"

section \<open>Reference definitions and sample inputs\<close>

text \<open>
  The brute-force side of the optimality property: every ordering of the destinations,
  the length of the open path from the origin along an ordering (no return leg), and
  the least such length. A pair missing from the matrix counts as \<open>inf\<close> here; the
  comparison with \<open>find_shortest_route\<close> is made on matrices where no pair is missing.
\<close>

definition dist :: "distances \<Rightarrow> string \<Rightarrow> string \<Rightarrow> fl" where
  "dist ds a b = (case ds (a, b) of Some d \<Rightarrow> d | None \<Rightarrow> PInf)"

fun insert_everywhere :: "'a \<Rightarrow> 'a list \<Rightarrow> 'a list list" where
  "insert_everywhere x [] = [[x]]"
| "insert_everywhere x (y # ys) = (x # y # ys) # map ((#) y) (insert_everywhere x ys)"

fun orderings :: "'a list \<Rightarrow> 'a list list" where
  "orderings [] = [[]]"
| "orderings (x # xs) = concat (map (insert_everywhere x) (orderings xs))"

fun legs_length :: "distances \<Rightarrow> string \<Rightarrow> string list \<Rightarrow> fl \<Rightarrow> fl" where
  "legs_length ds prev [] acc = acc"
| "legs_length ds prev (d # rest) acc = legs_length ds d rest (fadd acc (dist ds prev d))"

definition path_length :: "distances \<Rightarrow> string \<Rightarrow> string list \<Rightarrow> fl" where
  "path_length ds origin order =
     (case order of [] \<Rightarrow> Fin 0 | d # rest \<Rightarrow> legs_length ds d rest (dist ds origin d))"

definition brute_force :: "distances \<Rightarrow> string \<Rightarrow> string list \<Rightarrow> fl" where
  "brute_force ds origin destinations =
     Min (set (map (path_length ds origin) (orderings destinations)))"

text \<open>
  Notions of the correctness proof of the dynamic programme. Destinations are indices
  into \<open>relative_names\<close>, and a bitmask stands for the set of its one-bits. The cost
  of a list of indices is the length of the open path from the origin through the
  named destinations; an arrangement of a bitmask lists each of its members once.
\<close>

definition tour_cost :: "distances \<Rightarrow> string \<Rightarrow> string list \<Rightarrow> nat list \<Rightarrow> fl" where
  "tour_cost ds origin relative_names p = path_length ds origin (map ((!) relative_names) p)"

definition arrangement :: "nat \<Rightarrow> nat list \<Rightarrow> bool" where
  "arrangement msk p \<longleftrightarrow> distinct p \<and> set p = {i. bit msk i}"

text \<open>
  A matrix is complete for an origin and a list of destination names when it has an
  entry from the origin to every destination and between every two destinations at
  different positions of the list: the keys \<open>find_shortest_route\<close> reads.
\<close>

definition matrix_complete :: "distances \<Rightarrow> string \<Rightarrow> string list \<Rightarrow> bool" where
  "matrix_complete ds origin relative_names \<longleftrightarrow>
     list_all (\<lambda>i. ds (origin, relative_names ! i) \<noteq> None) [0..<length relative_names] \<and>
     list_all (\<lambda>u. list_all (\<lambda>v. u \<noteq> v \<longrightarrow>
                          ds (relative_names ! u, relative_names ! v) \<noteq> None)
                 [0..<length relative_names]) [0..<length relative_names]"

text \<open>
  The relaxations the three nested loops perform are the triples (mask, u, v) with
  \<open>u\<close> in the mask and \<open>v\<close> outside of it; \<open>processed n M U V\<close> holds of those
  performed before the loops reach mask \<open>M\<close>, node \<open>U\<close>, node \<open>V\<close>.
\<close>

definition valid_triple :: "nat \<Rightarrow> nat \<times> nat \<times> nat \<Rightarrow> bool" where
  "valid_triple n t =
     (case t of (m, u, v) \<Rightarrow> u < n \<and> v < n \<and> bit m u \<and> \<not> bit m v \<and> m < 2 ^ n)"

definition processed :: "nat \<Rightarrow> nat \<Rightarrow> nat \<Rightarrow> nat \<Rightarrow> nat \<times> nat \<times> nat \<Rightarrow> bool" where
  "processed n M U V t =
     (case t of (m, u, v) \<Rightarrow>
        valid_triple n t \<and> (m < M \<or> m = M \<and> (u < U \<or> u = U \<and> v < V)))"

text \<open>
  The loop invariant, in four parts: every finite table entry is the cost of an
  arrangement of its mask that ends in its node; every entry is at most the cost of
  each such arrangement whose last step has been relaxed; a predecessor link points to
  another member of the mask, only entries that were never improved have no link, and
  the entry a link leads to is finite.
\<close>

definition inv_attained :: "distances \<Rightarrow> string \<Rightarrow> string list \<Rightarrow> tables \<Rightarrow> bool" where
  "inv_attained ds origin relative_names tabs \<longleftrightarrow>
     (\<forall>v m. fst tabs (v, m) \<noteq> PInf \<longrightarrow>
        (\<exists>p. arrangement m p \<and> p \<noteq> [] \<and> last p = v \<and>
             fst tabs (v, m) = tour_cost ds origin relative_names p))"

definition inv_bound ::
  "distances \<Rightarrow> string \<Rightarrow> string list \<Rightarrow> (nat \<times> nat \<times> nat \<Rightarrow> bool) \<Rightarrow> tables \<Rightarrow> bool" where
  "inv_bound ds origin relative_names relaxed tabs \<longleftrightarrow>
     (\<forall>v m p. v < length relative_names \<and> arrangement m p \<and> p \<noteq> [] \<and> last p = v \<and>
        (length p = 1 \<or> relaxed (m XOR push_bit v 1, last (butlast p), v))
        \<longrightarrow> fst tabs (v, m) \<le> tour_cost ds origin relative_names p)"

definition inv_parent :: "nat \<Rightarrow> tables \<Rightarrow> bool" where
  "inv_parent n tabs \<longleftrightarrow>
     (\<forall>v m. snd tabs (v, m) = - 1 \<or>
        (\<exists>u<n. snd tabs (v, m) = int u \<and> u \<noteq> v \<and> bit m u \<and> bit m v)) \<and>
     (\<forall>v m. fst tabs (v, m) \<noteq> PInf \<and> m \<noteq> push_bit v 1 \<longrightarrow> snd tabs (v, m) \<noteq> - 1) \<and>
     (\<forall>v m u. snd tabs (v, m) = int u \<longrightarrow> fst tabs (u, m XOR push_bit v 1) \<noteq> PInf)"

definition hk_inv ::
  "distances \<Rightarrow> string \<Rightarrow> string list \<Rightarrow> (nat \<times> nat \<times> nat \<Rightarrow> bool) \<Rightarrow> tables \<Rightarrow> bool" where
  "hk_inv ds origin relative_names relaxed tabs \<longleftrightarrow>
     inv_attained ds origin relative_names tabs \<and>
     inv_bound ds origin relative_names relaxed tabs \<and>
     inv_parent (length relative_names) tabs"

text \<open>Sample inputs: the catalogue, route and distances of the repository's test fixtures.\<close>

definition test_modes :: "transport_mode list" where
  "test_modes =
     [\<lparr>tm_mode = Some ''Bus'', speed_kmh = Some 40, cost_per_km = Some 2,
       transfer_time_min = Some 5\<rparr>,
      \<lparr>tm_mode = Some ''Train'', speed_kmh = Some 80, cost_per_km = Some 5,
       transfer_time_min = Some 2\<rparr>,
      \<lparr>tm_mode = Some ''Walking'', speed_kmh = Some 5, cost_per_km = Some 0,
       transfer_time_min = Some 0\<rparr>,
      \<lparr>tm_mode = Some ''Bicycle'', speed_kmh = Some 15, cost_per_km = Some 0,
       transfer_time_min = Some 1\<rparr>]"

definition sample_distances :: leg_distances where
  "sample_distances =
     map_of [((''A'', ''B''), 10), ((''B'', ''C''), 5), ((''C'', ''D''), 15)]"

definition sample_route :: "string list" where
  "sample_route = [''A'', ''B'', ''C'', ''D'']"

definition place :: "string \<Rightarrow> real \<Rightarrow> real \<Rightarrow> location" where
  "place nm la lo = \<lparr>name = nm, latitude = la, longitude = lo\<rparr>"

text \<open>A stand-in for the geodesic primitive on sample points: it raises outside latitudes \<open>[-90, 90]\<close>.\<close>

definition sample_geodesic :: geodesic where
  "sample_geodesic p q =
     (if \<bar>fst p\<bar> > 90 \<or> \<bar>fst q\<bar> > 90 then None
      else Some (\<bar>fst p - fst q\<bar> + \<bar>snd p - snd q\<bar>))"

definition sample_matrix :: distances where
  "sample_matrix =
     map_of [((''Home'', ''a''), Fin 1), ((''a'', ''Home''), Fin 1),
             ((''Home'', ''b''), Fin 5), ((''b'', ''Home''), Fin 5),
             ((''Home'', ''c''), Fin 9), ((''c'', ''Home''), Fin 9),
             ((''a'', ''b''), Fin 7), ((''b'', ''a''), Fin 7),
             ((''a'', ''c''), Fin 2), ((''c'', ''a''), Fin 2),
             ((''b'', ''c''), Fin 3), ((''c'', ''b''), Fin 3)]"

text \<open>
  The inputs on which the alternative generators raise nothing: every key of every mode
  is present and no speed is zero, and every leg of the route is a key of the distance
  dictionary.
\<close>

definition usable_mode :: "transport_mode \<Rightarrow> bool" where
  "usable_mode m =
     (tm_mode m \<noteq> None \<and> speed_kmh m \<noteq> None \<and> speed_kmh m \<noteq> Some 0 \<and>
      cost_per_km m \<noteq> None \<and> transfer_time_min m \<noteq> None)"

definition legs_present :: "string list \<Rightarrow> leg_distances \<Rightarrow> bool" where
  "legs_present route distances =
     list_all (\<lambda>j. distances (route ! j, route ! (j + 1)) \<noteq> None) [0..<length route - 1]"

text \<open>
  The single-key ranking policy in the words of the specification: the primary key is
  the total time for \<open>least_time\<close> and the cost for \<open>least_cost\<close>, the other metric is
  the secondary key.
\<close>

definition ranking_key :: "string \<Rightarrow> mode_detail \<Rightarrow> real \<times> real" where
  "ranking_key preference x =
     (if preference = ''least_time'' then (total_time x, cost x) else (cost x, total_time x))"

text \<open>
  De-duplication by signature in the words of the specification: of the itineraries
  with one and the same sequence of mode names only the first is kept.
\<close>

fun distinct_signatures :: "segment list list \<Rightarrow> segment list list" where
  "distinct_signatures [] = []"
| "distinct_signatures (a # rest) =
     a # distinct_signatures (filter (\<lambda>b. path_signature b \<noteq> path_signature a) rest)"

text \<open>
  The three alternatives the single-key generator computes for the route \<open>A, B, C\<close> of
  the sample distances with the catalogue of bus and walking only, under \<open>least_time\<close>.
\<close>

definition bus_leg :: "string \<Rightarrow> string \<Rightarrow> real \<Rightarrow> segment" where
  "bus_leg a b d =
     \<lparr>from_node = a, to_node = b, seg_distance = d,
      selected_mode = \<lparr>mode = ''Bus'', travel_time = d / 40 * 60, transfer_time = 5,
                        total_time = d / 40 * 60 + 5, cost = d * 2\<rparr>\<rparr>"

definition walking_leg :: "string \<Rightarrow> string \<Rightarrow> real \<Rightarrow> segment" where
  "walking_leg a b d =
     \<lparr>from_node = a, to_node = b, seg_distance = d,
      selected_mode = \<lparr>mode = ''Walking'', travel_time = d / 5 * 60, transfer_time = 0,
                        total_time = d / 5 * 60 + 0, cost = d * 0\<rparr>\<rparr>"

definition example_alternatives :: "segment list list" where
  "example_alternatives =
     [[bus_leg ''A'' ''B'' 10, bus_leg ''B'' ''C'' 5],
      [walking_leg ''A'' ''B'' 10, walking_leg ''B'' ''C'' 5],
      [walking_leg ''A'' ''B'' 10, walking_leg ''B'' ''C'' 5]]"

section \<open>The distance matrix\<close>

lemma if_chain: "(if A then s else if B then s else d) = (if A \<or> B then s else d)"
  by simp

lemma store_pair_apply:
  "store_pair geo x y ds k =
     (if k = (name y, name x) \<or> k = (name x, name y)
      then Some (calculate_distance geo (latitude x, longitude x) (latitude y, longitude y))
      else ds k)"
  unfolding store_pair_def Let_def fun_upd_apply by (rule if_chain)

lemma store_pair_sym:
  assumes "\<And>a b. ds (a, b) = ds (b, a)"
  shows "store_pair geo x y ds (a, b) = store_pair geo x y ds (b, a)"
proof (cases "(a, b) = (name y, name x) \<or> (a, b) = (name x, name y)")
  case True
  then have "(b, a) = (name y, name x) \<or> (b, a) = (name x, name y)" by blast
  with True show ?thesis unfolding store_pair_apply by (simp only: if_True)
next
  case False
  then have "\<not> ((b, a) = (name y, name x) \<or> (b, a) = (name x, name y))" by blast
  with False show ?thesis unfolding store_pair_apply by (simp only: if_False assms[of a b])
qed

lemma fold_store_pair_sym:
  assumes "\<And>a b. ds (a, b) = ds (b, a)"
  shows "fold (\<lambda>(x, y). store_pair geo x y) ps ds (a, b) = fold (\<lambda>(x, y). store_pair geo x y) ps ds (b, a)"
  using assms
proof (induction ps arbitrary: ds a b)
  case Nil
  then show ?case by simp
next
  case (Cons p ps)
  obtain x y where p: "p = (x, y)" by (cases p)
  show ?case
    unfolding p fold_Cons comp_apply prod.case
    by (rule Cons.IH) (rule store_pair_sym, rule Cons.prems)
qed

lemma fold_home_as_pairs:
  "fold (\<lambda>r. store_pair geo h r) rs ds = fold (\<lambda>(x, y). store_pair geo x y) (map (Pair h) rs) ds"
  by (induction rs arbitrary: ds) simp_all

lemma calculate_symmetric_distances_pairs:
  "calculate_symmetric_distances geo relatives home =
     fold (\<lambda>(x, y). store_pair geo x y) (combinations2 relatives @ map (Pair home) relatives) Map.empty"
  by (simp add: calculate_symmetric_distances_def fold_home_as_pairs)

lemma dom_store_pair:
  "dom (store_pair geo x y ds) = dom ds \<union> {(name x, name y), (name y, name x)}"
  unfolding dom_def store_pair_apply by (auto split: if_splits)

lemma dom_fold_store_pair:
  "dom (fold (\<lambda>(x, y). store_pair geo x y) ps ds) =
     dom ds \<union> (\<Union>(x, y)\<in>set ps. {(name x, name y), (name y, name x)})"
proof (induction ps arbitrary: ds)
  case Nil
  then show ?case by simp
next
  case (Cons p ps)
  obtain x y where p: "p = (x, y)" by (cases p)
  show ?case
    unfolding p fold_Cons comp_apply prod.case Cons.IH dom_store_pair
    by auto
qed

lemma combinations2_subset:
  "(x, y) \<in> set (combinations2 xs) \<Longrightarrow> x \<in> set xs \<and> y \<in> set xs"
  by (induction xs) auto

lemma combinations2_covers:
  "x \<in> set xs \<Longrightarrow> y \<in> set xs \<Longrightarrow> x \<noteq> y \<Longrightarrow>
     (x, y) \<in> set (combinations2 xs) \<or> (y, x) \<in> set (combinations2 xs)"
  by (induction xs) auto

lemma combinations2_distinct_names:
  "distinct (map name xs) \<Longrightarrow> (x, y) \<in> set (combinations2 xs) \<Longrightarrow> name x \<noteq> name y"
proof (induction xs)
  case Nil
  then show ?case by simp
next
  case (Cons z zs)
  then show ?case
    by (auto dest: combinations2_subset)
qed

text \<open>
  Claim C8. The matrix built by \<open>calculate_symmetric_distances\<close> is symmetric, and it has
  an entry for every pair of different names among the origin and the destinations.
\<close>

theorem symmetric_distances_complete:
  "(\<forall>a b. calculate_symmetric_distances geo relatives home (a, b)
            = calculate_symmetric_distances geo relatives home (b, a)) \<and>
   (\<forall>a\<in>set (map name (home # relatives)). \<forall>b\<in>set (map name (home # relatives)).
       a \<noteq> b \<longrightarrow> calculate_symmetric_distances geo relatives home (a, b) \<noteq> None)"
proof (intro conjI allI ballI impI)
  fix a b
  show "calculate_symmetric_distances geo relatives home (a, b)
            = calculate_symmetric_distances geo relatives home (b, a)"
    unfolding calculate_symmetric_distances_pairs
    by (rule fold_store_pair_sym) simp
next
  fix a b
  assume a: "a \<in> set (map name (home # relatives))"
    and b: "b \<in> set (map name (home # relatives))" and ab: "a \<noteq> b"
  let ?ps = "combinations2 relatives @ map (Pair home) relatives"
  from a obtain x where x: "x \<in> set (home # relatives)" "a = name x" by auto
  from b obtain y where y: "y \<in> set (home # relatives)" "b = name y" by auto
  from ab x y have xy: "x \<noteq> y" by auto
  have "(x, y) \<in> set ?ps \<or> (y, x) \<in> set ?ps"
  proof (cases "x \<in> set relatives \<and> y \<in> set relatives")
    case True
    with xy combinations2_covers[of x relatives y] show ?thesis by auto
  next
    case False
    with x y xy show ?thesis by auto
  qed
  then have "(a, b) \<in> dom (fold (\<lambda>(x, y). store_pair geo x y) ?ps Map.empty)"
    unfolding dom_fold_store_pair using x(2) y(2) by auto
  then show "calculate_symmetric_distances geo relatives home (a, b) \<noteq> None"
    unfolding calculate_symmetric_distances_pairs by auto
qed

theorem symmetric_distances_complete_witness:
  "calculate_symmetric_distances sample_geodesic [place ''a'' 1 1, place ''b'' 2 2]
       (place ''Home'' 0 0) (''a'', ''Home'')
     = calculate_symmetric_distances sample_geodesic [place ''a'' 1 1, place ''b'' 2 2]
       (place ''Home'' 0 0) (''Home'', ''a'') \<and>
   calculate_symmetric_distances sample_geodesic [place ''a'' 1 1, place ''b'' 2 2]
       (place ''Home'' 0 0) (''b'', ''a'') \<noteq> None"
  using symmetric_distances_complete
    [of sample_geodesic "[place ''a'' 1 1, place ''b'' 2 2]" "place ''Home'' 0 0"]
  by (simp add: place_def)

text \<open>
  Claim C9, as stated, fails: the matrix holds no self-pair, so the query at \<open>(a, a)\<close>
  raises \<open>KeyError\<close> and returns no number.
\<close>

theorem self_pair_counterexample:
  "lookup (calculate_symmetric_distances sample_geodesic [place ''a'' 1 1] (place ''Home'' 0 0))
     (''a'', ''a'') = Inl KeyError"
  by code_simp

text \<open>
  Claim C9, amended. When the names of the origin and the destinations are pairwise
  different, the matrix built by \<open>calculate_symmetric_distances\<close> has no entry at any
  self-pair \<open>(a, a)\<close>.
\<close>

theorem self_pair_absent:
  assumes "distinct (map name (home # relatives))"
  shows "calculate_symmetric_distances geo relatives home (a, a) = None"
proof -
  let ?ps = "combinations2 relatives @ map (Pair home) relatives"
  have "name x \<noteq> name y" if "(x, y) \<in> set ?ps" for x y
  proof (cases "(x, y) \<in> set (combinations2 relatives)")
    case True
    with assms show ?thesis by (auto dest: combinations2_distinct_names)
  next
    case False
    with that assms show ?thesis by auto
  qed
  then have nodiag: "\<And>x y. (x, y) \<in> set ?ps \<Longrightarrow> name x \<noteq> name y" .
  have "(a, a) \<notin> dom (fold (\<lambda>(x, y). store_pair geo x y) ?ps Map.empty)"
  proof
    assume "(a, a) \<in> dom (fold (\<lambda>(x, y). store_pair geo x y) ?ps Map.empty)"
    then obtain p where p: "p \<in> set ?ps"
      and mem: "(a, a) \<in> (case p of (x, y) \<Rightarrow> {(name x, name y), (name y, name x)})"
      unfolding dom_fold_store_pair by blast
    obtain x y where xy: "p = (x, y)" by (cases p)
    from mem have "name x = name y" unfolding xy by auto
    with nodiag[of x y] p show False unfolding xy by blast
  qed
  then show ?thesis
    unfolding calculate_symmetric_distances_pairs by auto
qed

theorem self_pair_absent_witness:
  "distinct (map name (place ''Home'' 0 0 # [place ''a'' 1 1, place ''b'' 2 2])) \<and>
   calculate_symmetric_distances sample_geodesic [place ''a'' 1 1, place ''b'' 2 2]
       (place ''Home'' 0 0) (''Home'', ''Home'') = None"
  using self_pair_absent
    [of "place ''Home'' 0 0" "[place ''a'' 1 1, place ''b'' 2 2]" sample_geodesic "''Home''"]
  by (simp add: place_def)

section \<open>The route solver\<close>

text \<open>
  Claim C2. With exactly one destination the returned route is the one-way path
  \<open>[origin, d]\<close>, and the reported distance is the sum of the distance to the
  destination and the distance back.
\<close>

theorem single_destination_round_trip:
  assumes "ds (home, name d) = Some d1" and "ds (name d, home) = Some d2"
  shows "find_shortest_route [d] ds home
           = Some (Inr \<lparr>rr_route = [home, name d], rr_distance = fadd d1 d2\<rparr>)"
  using assms by (simp add: find_shortest_route_def lookup_def)

theorem single_destination_round_trip_witness:
  "find_shortest_route [place ''a'' 0 0] sample_matrix ''Home''
     = Some (Inr \<lparr>rr_route = [''Home'', ''a''], rr_distance = Fin 2\<rparr>)"
  using single_destination_round_trip
    [of sample_matrix "''Home''" "place ''a'' 0 0" "Fin 1" "Fin 1"]
  by (simp add: sample_matrix_def place_def)

section \<open>Alternative generation\<close>

subsection \<open>Loops that may raise\<close>

lemma distinct_signatures_length: "length (distinct_signatures xs) \<le> length xs"
proof (induction xs rule: distinct_signatures.induct)
  case 1
  then show ?case by simp
next
  case (2 a rest)
  have "length (filter (\<lambda>b. path_signature b \<noteq> path_signature a) rest) \<le> length rest"
    by (rule length_filter_le)
  with 2 have "length (distinct_signatures (filter (\<lambda>b. path_signature b \<noteq> path_signature a) rest))
      \<le> length rest"
    by (rule order_trans)
  then show ?case by simp
qed

lemma dedup_fold:
  "snd (fold (\<lambda>alternative (seen_paths, final_alternatives).
             if path_signature alternative \<notin> seen_paths
             then (insert (path_signature alternative) seen_paths,
                   final_alternatives @ [alternative])
             else (seen_paths, final_alternatives)) xs (seen, acc))
   = acc @ distinct_signatures (filter (\<lambda>b. path_signature b \<notin> seen) xs)"
proof (induction xs arbitrary: seen acc)
  case Nil
  then show ?case by simp
next
  case (Cons x xs)
  show ?case
  proof (cases "path_signature x \<in> seen")
    case True
    then show ?thesis using Cons.IH[of seen acc] by simp
  next
    case False
    have "filter (\<lambda>b. path_signature b \<notin> insert (path_signature x) seen) xs
        = filter (\<lambda>b. path_signature b \<noteq> path_signature x) (filter (\<lambda>b. path_signature b \<notin> seen) xs)"
      by (auto intro: filter_cong)
    with False show ?thesis using Cons.IH[of "insert (path_signature x) seen" "acc @ [x]"] by simp
  qed
qed

lemma distinct_alternatives_eq: "snd (distinct_alternatives xs) = distinct_signatures xs"
  unfolding distinct_alternatives_def dedup_fold by simp

lemma mapE_Inr_iff: "mapE f xs = Inr ys \<longleftrightarrow> list_all2 (\<lambda>x y. f x = Inr y) xs ys"
proof (induction xs arbitrary: ys)
  case Nil
  then show ?case by auto
next
  case (Cons x xs)
  show ?case
  proof (cases "f x")
    case (Inl e)
    then show ?thesis by (auto simp: list_all2_Cons1)
  next
    case (Inr y)
    then show ?thesis
      using Cons.IH by (cases "mapE f xs") (auto simp: list_all2_Cons1)
  qed
qed

lemma mapE_length: "mapE f xs = Inr ys \<Longrightarrow> length ys = length xs"
  by (simp add: mapE_Inr_iff list_all2_lengthD)

lemma mapE_nth: "mapE f xs = Inr ys \<Longrightarrow> i < length xs \<Longrightarrow> f (xs ! i) = Inr (ys ! i)"
  by (auto simp: mapE_Inr_iff dest: list_all2_nthD)

lemma mapE_succeeds:
  "(\<And>x. x \<in> set xs \<Longrightarrow> \<exists>y. f x = Inr y) \<Longrightarrow> \<exists>ys. mapE f xs = Inr ys"
proof (induction xs)
  case Nil
  then show ?case by simp
next
  case (Cons x xs)
  from Cons.prems obtain y where y: "f x = Inr y" by auto
  from Cons obtain ys where "mapE f xs = Inr ys" by auto
  with y show ?case by simp
qed

lemma mode_entry_succeeds: "usable_mode m \<Longrightarrow> \<exists>d. mode_entry distance m = Inr d"
  by (auto simp: usable_mode_def mode_entry_def Let_def)

lemma calculate_mode_details_succeeds:
  assumes "list_all usable_mode transport_modes"
  shows "\<exists>mode_details. calculate_mode_details a b distance transport_modes = Inr mode_details
           \<and> length mode_details = length transport_modes"
proof -
  have "\<exists>ys. mapE (mode_entry distance) transport_modes = Inr ys"
    using assms by (intro mapE_succeeds mode_entry_succeeds) (simp add: list_all_iff)
  then show ?thesis
    unfolding calculate_mode_details_def by (auto dest: mapE_length)
qed

lemma select_rank_succeeds:
  assumes "xs \<noteq> []"
  shows "select_rank i xs = Inr (xs ! min i (length xs - 1))"
proof (cases "i < length xs")
  case True
  then have "min i (length xs - 1) = i" by simp
  with True show ?thesis by (simp add: select_rank_def)
next
  case False
  then have "min i (length xs - 1) = length xs - 1" by simp
  with False assms show ?thesis by (simp add: select_rank_def last_conv_nth)
qed

lemma select_rank_Inr:
  assumes "select_rank i xs = Inr m"
  shows "xs \<noteq> [] \<and> m = xs ! min i (length xs - 1)"
proof -
  from assms have ne: "xs \<noteq> []"
    by (auto simp: select_rank_def split: if_splits)
  from select_rank_succeeds[OF ne, of i] assms ne show ?thesis by simp
qed

lemma legs_presentD:
  "legs_present route distances \<Longrightarrow> j < length route - 1 \<Longrightarrow> \<exists>d. distances (route ! j, route ! (j + 1)) = Some d"
  by (auto simp: legs_present_def list_all_iff)

lemma single_segment_succeeds:
  assumes "preference = ''least_time'' \<or> preference = ''least_cost''"
    and "transport_modes \<noteq> []" and "list_all usable_mode transport_modes"
    and "legs_present route distances" and "j < length route - 1"
  shows "\<exists>s. single_segment route distances transport_modes preference i j = Inr s"
proof -
  from assms(4,5) obtain d where d: "distances (route ! j, route ! (j + 1)) = Some d"
    by (auto dest: legs_presentD)
  from calculate_mode_details_succeeds[OF assms(3)] obtain md
    where md: "calculate_mode_details (route ! j) (route ! (j + 1)) d transport_modes = Inr md"
      and len: "length md = length transport_modes" by blast
  from assms(1) obtain sm where sm: "sort_modes preference md = Inr sm" "length sm = length md"
    by (auto simp: sort_modes_def)
  with len assms(2) have "sm \<noteq> []" by auto
  from select_rank_succeeds[OF this] d md sm show ?thesis
    by (simp add: single_segment_def Let_def)
qed

lemma generate_single_route_succeeds:
  assumes "preference = ''least_time'' \<or> preference = ''least_cost''"
    and "transport_modes \<noteq> []" and "list_all usable_mode transport_modes"
    and "legs_present route distances"
  shows "\<exists>alts. generate_single_route route distances transport_modes preference = Inr alts
           \<and> length alts = 3"
proof -
  have "\<exists>ys. mapE (single_segment route distances transport_modes preference i) [0..<length route - 1] = Inr ys" for i
    by (rule mapE_succeeds) (use single_segment_succeeds[OF assms] in auto)
  then have "\<exists>alts. mapE (\<lambda>i. mapE (single_segment route distances transport_modes preference i)
                  [0..<length route - 1]) [0..<3] = Inr alts"
    by (rule mapE_succeeds)
  then obtain alts where alts: "mapE (\<lambda>i. mapE (single_segment route distances transport_modes preference i)
                  [0..<length route - 1]) [0..<3] = Inr alts" by blast
  from mapE_length[OF alts] have "length alts = 3" by simp
  with alts show ?thesis
    unfolding generate_single_route_def by blast
qed

lemma topsis_scores_length:
  "topsis_scores mode_details tw cw = Some scores \<Longrightarrow> length scores = length mode_details"
  unfolding topsis_scores_def Let_def closeness_def distances_to_def by (auto split: if_splits)

lemma topsis_evaluation_succeeds:
  assumes "mode_details \<noteq> []"
  shows "\<exists>best. topsis_evaluation mode_details tw cw = Inr best \<and> length best = length mode_details"
  using assms by (auto simp: topsis_evaluation_def argsort_def dest: topsis_scores_length split: option.splits)

lemma balanced_segment_succeeds:
  assumes "transport_modes \<noteq> []" and "list_all usable_mode transport_modes"
    and "legs_present route distances" and "j < length route - 1"
  shows "\<exists>s. balanced_segment route distances transport_modes tw cw j = Inr s"
proof -
  from assms(3,4) obtain d where d: "distances (route ! j, route ! (j + 1)) = Some d"
    by (auto dest: legs_presentD)
  from calculate_mode_details_succeeds[OF assms(2)] obtain md
    where md: "calculate_mode_details (route ! j) (route ! (j + 1)) d transport_modes = Inr md"
      and len: "length md = length transport_modes" by blast
  with assms(1) have "md \<noteq> []" by auto
  from topsis_evaluation_succeeds[OF this] obtain best
    where best: "topsis_evaluation md tw cw = Inr best" "length best = length md" by blast
  with \<open>md \<noteq> []\<close> obtain b bs where "best = b # bs" by (cases best) auto
  with d md best show ?thesis
    by (simp add: balanced_segment_def Let_def)
qed

lemma calculate_balanced_route_succeeds:
  assumes "transport_modes \<noteq> []" and "list_all usable_mode transport_modes"
    and "legs_present route distances"
  shows "\<exists>alts. calculate_balanced_route route distances transport_modes = Inr alts
           \<and> length alts = 3"
proof -
  let ?f = "\<lambda>(time_weight, cost_weight).
                   mapE (balanced_segment route distances transport_modes time_weight cost_weight)
                        [0..<length route - 1]"
  have "\<exists>ys. ?f w = Inr ys" for w
  proof -
    obtain tw cw where w: "w = (tw, cw)" by (cases w)
    have "\<exists>ys. mapE (balanced_segment route distances transport_modes tw cw)
                        [0..<length route - 1] = Inr ys"
      by (rule mapE_succeeds) (use balanced_segment_succeeds[OF assms] in auto)
    then show ?thesis unfolding w by simp
  qed
  then have "\<exists>all. mapE ?f weight_combinations = Inr all"
    by (rule mapE_succeeds)
  then obtain all_alts where all_alts: "mapE ?f weight_combinations = Inr all_alts" by blast
  from mapE_length[OF all_alts] have len: "length all_alts = 3"
    by (simp add: weight_combinations_def)
  have "length (snd (distinct_alternatives all_alts)) \<le> 3"
    unfolding distinct_alternatives_eq using distinct_signatures_length[of all_alts] len by simp
  then show ?thesis
    unfolding calculate_balanced_route_def all_alts using len by (auto simp: Let_def)
qed


subsection \<open>TOPSIS scores\<close>

lemma sum_squares_pos:
  assumes "xs \<noteq> []" and "\<And>x. x \<in> set xs \<Longrightarrow> 0 < (x::real)"
  shows "0 < sum_list (map (\<lambda>x. x\<^sup>2) xs)"
  using assms
proof (induction xs)
  case Nil
  then show ?case by simp
next
  case (Cons x xs)
  have "0 < x\<^sup>2" using Cons.prems(2)[of x] by simp
  moreover have "0 \<le> sum_list (map (\<lambda>x. x\<^sup>2) xs)"
    by (rule sum_list_nonneg) auto
  ultimately have "0 < x\<^sup>2 + sum_list (map (\<lambda>x. x\<^sup>2) xs)"
    by (rule add_pos_nonneg)
  then show ?case by simp
qed

lemma vector_norm_pos:
  assumes "xs \<noteq> []" and "\<And>x. x \<in> set xs \<Longrightarrow> 0 < (x::real)"
  shows "0 < vector_norm xs"
  unfolding vector_norm_def using sum_squares_pos[OF assms] by simp

lemma closeness_bounds:
  assumes "0 \<le> (dp::real)" and "0 \<le> dn"
  shows "0 \<le> dn / (dp + dn + 0.000001) \<and> dn / (dp + dn + 0.000001) \<le> 1"
proof -
  have pos: "0 < dp + dn + 0.000001" using assms by simp
  have "dn \<le> dp + dn + 0.000001" using assms by simp
  with pos have "dn / (dp + dn + 0.000001) \<le> 1" by (simp add: divide_le_eq)
  moreover have "0 \<le> dn / (dp + dn + 0.000001)" using assms pos by simp
  ultimately show ?thesis by simp
qed

lemma closeness_in_unit:
  assumes "\<And>x. x \<in> set ps \<Longrightarrow> 0 \<le> x" and "\<And>y. y \<in> set ns \<Longrightarrow> 0 \<le> y"
    and "s \<in> set (closeness ps ns)"
  shows "0 \<le> s \<and> s \<le> 1"
proof -
  from assms(3) obtain p n where pn: "(p, n) \<in> set (zip ps ns)"
    and s: "s = n / (p + n + 0.000001)" unfolding closeness_def by auto
  from pn have "p \<in> set ps" "n \<in> set ns" by (auto dest: set_zip_leftD set_zip_rightD)
  with assms(1,2) have "0 \<le> p" "0 \<le> n" by auto
  with closeness_bounds[of p n] s show ?thesis by simp
qed

lemma distances_to_nonneg: "x \<in> set (distances_to ts cs p) \<Longrightarrow> 0 \<le> x"
  unfolding distances_to_def by auto

lemma topsis_scores_defined:
  assumes "vector_norm (map total_time mode_details) \<noteq> 0"
    and "vector_norm (map cost mode_details) \<noteq> 0"
  shows "\<exists>scores. topsis_scores mode_details tw cw = Some scores \<and>
           length scores = length mode_details \<and> (\<forall>s\<in>set scores. 0 \<le> s \<and> s \<le> 1)"
proof -
  obtain ps ns where sc: "topsis_scores mode_details tw cw = Some (closeness ps ns)"
    and ps: "\<And>x. x \<in> set ps \<Longrightarrow> 0 \<le> x" and ns: "\<And>x. x \<in> set ns \<Longrightarrow> 0 \<le> x"
    using assms distances_to_nonneg by (simp add: topsis_scores_def Let_def)
  have len: "length (closeness ps ns) = length mode_details" using sc by (rule topsis_scores_length)
  have "0 \<le> s \<and> s \<le> 1" if "s \<in> set (closeness ps ns)" for s
    using ps ns that by (rule closeness_in_unit)
  with sc len show ?thesis by blast
qed

lemma topsis_scores_single:
  assumes "total_time d \<noteq> 0" and "cost d \<noteq> 0"
  shows "topsis_scores [d] tw cw = Some [0]"
  using assms by (simp add: topsis_scores_def vector_norm_def closeness_def distances_to_def Let_def)

lemma topsis_scores_single_zero:
  assumes "total_time d = 0 \<or> cost d = 0"
  shows "topsis_scores [d] tw cw = None"
  using assms by (auto simp: topsis_scores_def vector_norm_def Let_def)

text \<open>
  Claim C7, as stated, fails in its single-candidate part: for the walking mode of the
  fixture catalogue alone the cost is \<open>0\<close>, the cost column has norm \<open>0\<close>, the
  normalisation computes \<open>0 / 0\<close>, and the score is \<open>nan\<close>, not \<open>0\<close>.
\<close>

theorem single_candidate_counterexample:
  "calculate_mode_details ''A'' ''B'' 10 [test_modes ! 2]
     = Inr [\<lparr>mode = ''Walking'', travel_time = 120, transfer_time = 0, total_time = 120,
             cost = 0\<rparr>] \<and>
   topsis_scores [\<lparr>mode = ''Walking'', travel_time = 120, transfer_time = 0, total_time = 120,
                   cost = 0\<rparr>] 0.75 0.25 = None"
  by (simp add: calculate_mode_details_def mode_entry_def test_modes_def
      topsis_scores_single_zero)

text \<open>
  Claim C7, amended. When every total time and every cost of a non-empty candidate list
  is strictly positive, every closeness score lies in \<open>[0, 1]\<close>. The score of a single
  candidate is \<open>0\<close> when its total time and its cost are both different from zero, and
  it is \<open>nan\<close> when one of them is zero.
\<close>

theorem topsis_closeness_bounds:
  "(mode_details \<noteq> [] \<and> (\<forall>d\<in>set mode_details. 0 < total_time d \<and> 0 < cost d)
      \<longrightarrow> (\<exists>scores. topsis_scores mode_details time_weight cost_weight = Some scores \<and>
             length scores = length mode_details \<and>
             (\<forall>s\<in>set scores. 0 \<le> s \<and> s \<le> 1))) \<and>
   topsis_scores [candidate] time_weight cost_weight
     = (if total_time candidate = 0 \<or> cost candidate = 0 then None else Some [0])"
proof (intro conjI impI)
  assume a: "mode_details \<noteq> [] \<and> (\<forall>d\<in>set mode_details. 0 < total_time d \<and> 0 < cost d)"
  have "0 < vector_norm (map total_time mode_details)"
    using a by (intro vector_norm_pos) auto
  moreover have "0 < vector_norm (map cost mode_details)"
    using a by (intro vector_norm_pos) auto
  ultimately show "\<exists>scores. topsis_scores mode_details time_weight cost_weight = Some scores \<and>
             length scores = length mode_details \<and>
             (\<forall>s\<in>set scores. 0 \<le> s \<and> s \<le> 1)"
    using topsis_scores_defined[of mode_details time_weight cost_weight] by auto
next
  show "topsis_scores [candidate] time_weight cost_weight
     = (if total_time candidate = 0 \<or> cost candidate = 0 then None else Some [0])"
  proof (cases "total_time candidate = 0 \<or> cost candidate = 0")
    case True
    then show ?thesis by (simp only: topsis_scores_single_zero if_True)
  next
    case False
    then have "total_time candidate \<noteq> 0" "cost candidate \<noteq> 0" by simp_all
    from topsis_scores_single[OF this] False show ?thesis by (simp only: if_False)
  qed
qed

theorem topsis_closeness_bounds_witness:
  "(\<exists>scores. topsis_scores
        [\<lparr>mode = ''Bus'', travel_time = 15, transfer_time = 5, total_time = 20, cost = 20\<rparr>,
         \<lparr>mode = ''Train'', travel_time = 15 / 2, transfer_time = 2, total_time = 19 / 2,
          cost = 50\<rparr>] 0.75 0.25 = Some scores \<and> length scores = 2) \<and>
   topsis_scores
        [\<lparr>mode = ''Bus'', travel_time = 15, transfer_time = 5, total_time = 20, cost = 20\<rparr>]
        0.75 0.25 = Some [0]"
  using topsis_closeness_bounds
      [of "[\<lparr>mode = ''Bus'', travel_time = 15, transfer_time = 5, total_time = 20, cost = 20\<rparr>,
            \<lparr>mode = ''Train'', travel_time = 15 / 2, transfer_time = 2, total_time = 19 / 2,
             cost = 50\<rparr>]" "0.75" "0.25"
          "\<lparr>mode = ''Bus'', travel_time = 15, transfer_time = 5, total_time = 20, cost = 20\<rparr>"]
  by auto

subsection \<open>The criterion\<close>

text \<open>
  Claim C10. For each of the three criteria, every route whose legs are in the distance
  dictionary and every non-empty catalogue of usable modes,
  \<open>calculate_route_preferences\<close> returns exactly three alternatives.
\<close>

theorem exactly_three_alternatives:
  assumes "preference = ''least_time'' \<or> preference = ''least_cost''
             \<or> preference = ''balanced_topsis''"
    and "transport_modes \<noteq> []" and "list_all usable_mode transport_modes"
    and "legs_present route distances"
  shows "\<exists>alts. calculate_route_preferences route distances transport_modes preference = Inr alts
           \<and> length alts = 3"
proof (cases "preference = ''balanced_topsis''")
  case True
  with calculate_balanced_route_succeeds[OF assms(2-4)] show ?thesis
    by (simp add: calculate_route_preferences_def)
next
  case False
  with assms(1) have p: "preference = ''least_time'' \<or> preference = ''least_cost''" by blast
  from generate_single_route_succeeds[OF p assms(2-4)] False p show ?thesis
    unfolding calculate_route_preferences_def by auto
qed

theorem exactly_three_alternatives_witness:
  "\<exists>alts. calculate_route_preferences sample_route sample_distances test_modes ''balanced_topsis''
            = Inr alts \<and> length alts = 3"
  using exactly_three_alternatives
    [of "''balanced_topsis''" test_modes sample_route sample_distances]
  by (simp add: test_modes_def usable_mode_def legs_present_def sample_route_def
      sample_distances_def)

text \<open>
  Claim C3, as stated, fails: the criterion \<open>balanced\<close> is not one of the three values
  the function accepts.
\<close>

theorem balanced_criterion_counterexample:
  "calculate_route_preferences sample_route sample_distances test_modes ''balanced''
     = Inl InvalidPreference"
  by (simp add: calculate_route_preferences_def)

text \<open>
  Claim C3, amended. \<open>calculate_route_preferences\<close> fails with the invalid-preference
  \<open>ValueError\<close> for every criterion other than \<open>least_time\<close>, \<open>least_cost\<close> and
  \<open>balanced_topsis\<close>, whatever the other arguments are, and it succeeds for each of
  these three on a route whose legs are in the dictionary and a non-empty catalogue of
  usable modes.
\<close>

theorem recognized_criteria:
  "(preference \<noteq> ''least_time'' \<and> preference \<noteq> ''least_cost''
      \<and> preference \<noteq> ''balanced_topsis''
    \<longrightarrow> calculate_route_preferences route distances transport_modes preference
          = Inl InvalidPreference) \<and>
   ((preference = ''least_time'' \<or> preference = ''least_cost''
       \<or> preference = ''balanced_topsis'')
      \<and> transport_modes \<noteq> [] \<and> list_all usable_mode transport_modes
      \<and> legs_present route distances
    \<longrightarrow> (\<exists>alts. calculate_route_preferences route distances transport_modes preference
                 = Inr alts))"
proof (intro conjI impI)
  assume "preference \<noteq> ''least_time'' \<and> preference \<noteq> ''least_cost''
      \<and> preference \<noteq> ''balanced_topsis''"
  then show "calculate_route_preferences route distances transport_modes preference
          = Inl InvalidPreference"
    by (simp add: calculate_route_preferences_def)
next
  assume h: "(preference = ''least_time'' \<or> preference = ''least_cost''
       \<or> preference = ''balanced_topsis'')
      \<and> transport_modes \<noteq> [] \<and> list_all usable_mode transport_modes
      \<and> legs_present route distances"
  show "\<exists>alts. calculate_route_preferences route distances transport_modes preference = Inr alts"
  proof (cases "preference = ''balanced_topsis''")
    case True
    with h calculate_balanced_route_succeeds[of transport_modes route distances] show ?thesis
      by (auto simp: calculate_route_preferences_def)
  next
    case False
    with h have p: "preference = ''least_time'' \<or> preference = ''least_cost''" by blast
    from h generate_single_route_succeeds[OF p, of transport_modes route distances] False p
    show ?thesis
      unfolding calculate_route_preferences_def by auto
  qed
qed

theorem recognized_criteria_witness:
  "calculate_route_preferences sample_route sample_distances test_modes ''fastest''
     = Inl InvalidPreference \<and>
   (\<exists>alts. calculate_route_preferences sample_route sample_distances test_modes ''least_cost''
      = Inr alts)"
  using recognized_criteria [of "''fastest''" sample_route sample_distances test_modes]
    recognized_criteria [of "''least_cost''" sample_route sample_distances test_modes]
  by (simp add: test_modes_def usable_mode_def legs_present_def sample_route_def
      sample_distances_def)

subsection \<open>Single-key alternatives\<close>

lemma sort_modes_ranking:
  assumes "preference = ''least_time'' \<or> preference = ''least_cost''"
  shows "sort_modes preference mode_details
           = Inr (sort_key (ranking_key preference) mode_details)"
proof (cases "preference = ''least_time''")
  case True
  have "ranking_key ''least_time'' = (\<lambda>x. (total_time x, cost x))"
    by (rule ext) (simp add: ranking_key_def)
  then show ?thesis unfolding True by (simp add: sort_modes_def)
next
  case False
  with assms have lc: "preference = ''least_cost''" by blast
  have "ranking_key ''least_cost'' = (\<lambda>x. (cost x, total_time x))"
    by (rule ext) (simp add: ranking_key_def)
  then show ?thesis unfolding lc by (simp add: sort_modes_def)
qed

lemma calculate_mode_details_length:
  "calculate_mode_details a b distance transport_modes = Inr mode_details
     \<Longrightarrow> length mode_details = length transport_modes"
  unfolding calculate_mode_details_def by (rule mapE_length)

lemma single_segment_Inr:
  assumes "preference = ''least_time'' \<or> preference = ''least_cost''"
    and "single_segment route distances transport_modes preference i j = Inr s"
  shows "\<exists>distance mode_details.
           distances (route ! j, route ! (j + 1)) = Some distance \<and>
           calculate_mode_details (route ! j) (route ! (j + 1)) distance transport_modes
             = Inr mode_details \<and>
           length mode_details = length transport_modes \<and> mode_details \<noteq> [] \<and>
           s = \<lparr>from_node = route ! j, to_node = route ! (j + 1), seg_distance = distance,
                selected_mode = sort_key (ranking_key preference) mode_details
                                  ! min i (length mode_details - 1)\<rparr>"
proof -
  from assms(2) obtain distance where d: "distances (route ! j, route ! (j + 1)) = Some distance"
    by (cases "distances (route ! j, route ! (j + 1))") (simp_all add: single_segment_def Let_def)
  from assms(2) d obtain mode_details
    where md: "calculate_mode_details (route ! j) (route ! (j + 1)) distance transport_modes
                 = Inr mode_details"
    by (cases "calculate_mode_details (route ! j) (route ! (j + 1)) distance transport_modes")
       (simp_all add: single_segment_def Let_def)
  note sm = sort_modes_ranking[OF assms(1), of mode_details]
  from assms(2) d md sm obtain best
    where best: "select_rank i (sort_key (ranking_key preference) mode_details) = Inr best"
      and s: "s = \<lparr>from_node = route ! j, to_node = route ! (j + 1), seg_distance = distance,
                   selected_mode = best\<rparr>"
    by (cases "select_rank i (sort_key (ranking_key preference) mode_details)")
       (simp_all add: single_segment_def Let_def)
  from select_rank_Inr[OF best]
  have "mode_details \<noteq> []"
    and "best = sort_key (ranking_key preference) mode_details ! min i (length mode_details - 1)"
    by auto
  with d md s calculate_mode_details_length[OF md] show ?thesis by blast
qed

text \<open>
  Claim C5. For \<open>least_time\<close> and \<open>least_cost\<close>, whenever \<open>generate_single_route\<close>
  returns, it returns three alternatives, and alternative \<open>i\<close> gives every leg the mode at
  position \<open>i\<close> of that leg's evaluations in stable ascending order of the pair (primary
  key, other metric), or the last position when the catalogue has fewer than \<open>i + 1\<close>
  modes.
\<close>

theorem single_route_rank_selection:
  assumes "preference = ''least_time'' \<or> preference = ''least_cost''"
    and "generate_single_route route distances transport_modes preference = Inr alts"
  shows "length alts = 3 \<and>
         (\<forall>i<3. length (alts ! i) = length route - 1 \<and>
            (\<forall>j<length route - 1. \<exists>distance mode_details.
               distances (route ! j, route ! (j + 1)) = Some distance \<and>
               calculate_mode_details (route ! j) (route ! (j + 1)) distance transport_modes
                 = Inr mode_details \<and>
               length mode_details = length transport_modes \<and> mode_details \<noteq> [] \<and>
               alts ! i ! j =
                 \<lparr>from_node = route ! j, to_node = route ! (j + 1), seg_distance = distance,
                  selected_mode = sort_key (ranking_key preference) mode_details
                                    ! min i (length mode_details - 1)\<rparr>))"
proof (intro conjI allI impI)
  note outer = assms(2)[unfolded generate_single_route_def]
  from mapE_length[OF outer] show "length alts = 3" by simp
  fix i :: nat
  assume i: "i < 3"
  from mapE_nth[OF outer, of i] i
  have inner: "mapE (single_segment route distances transport_modes preference i)
                 [0..<length route - 1] = Inr (alts ! i)"
    by simp
  from mapE_length[OF inner] show "length (alts ! i) = length route - 1" by simp
  fix j
  assume j: "j < length route - 1"
  from mapE_nth[OF inner, of j] j
  have "single_segment route distances transport_modes preference i j = Inr (alts ! i ! j)"
    by simp
  from single_segment_Inr[OF assms(1) this]
  show "\<exists>distance mode_details.
               distances (route ! j, route ! (j + 1)) = Some distance \<and>
               calculate_mode_details (route ! j) (route ! (j + 1)) distance transport_modes
                 = Inr mode_details \<and>
               length mode_details = length transport_modes \<and> mode_details \<noteq> [] \<and>
               alts ! i ! j =
                 \<lparr>from_node = route ! j, to_node = route ! (j + 1), seg_distance = distance,
                  selected_mode = sort_key (ranking_key preference) mode_details
                                    ! min i (length mode_details - 1)\<rparr>" .
qed

theorem single_route_rank_selection_witness:
  "generate_single_route [''A'', ''B'', ''C''] sample_distances [test_modes ! 0, test_modes ! 2]
       ''least_time'' = Inr example_alternatives \<and>
   length example_alternatives = 3 \<and> length (example_alternatives ! 2) = 2"
proof -
  have ev: "generate_single_route [''A'', ''B'', ''C''] sample_distances
              [test_modes ! 0, test_modes ! 2] ''least_time'' = Inr example_alternatives"
    by code_simp
  from single_route_rank_selection[OF _ ev] ev show ?thesis by simp
qed

subsection \<open>Balanced alternatives\<close>





section \<open>Optimality of the route solver\<close>

lemma fl_less_PInf [simp]: "\<not> PInf < (x::fl)"
  by (cases x) (simp_all add: less_fl_def)

lemma fl_le_PInf [simp]: "(x::fl) \<le> PInf"
  by (cases x) simp_all

lemma fl_PInf_le [simp]: "PInf \<le> (x::fl) \<longleftrightarrow> x = PInf"
  by (cases x) simp_all

lemma fadd_mono_left: "a \<le> b \<Longrightarrow> fadd a c \<le> fadd b c"
  by (cases a; cases b; cases c) simp_all

lemma fadd_PInf_iff: "fadd a b = PInf \<longleftrightarrow> a = PInf \<or> b = PInf"
  by (cases a; cases b) simp_all

lemma masked_iff_bit: "(m::nat) AND 2 ^ v = 0 \<longleftrightarrow> \<not> bit m v"
  using bit_iff_and_push_bit_not_eq_0[of m v] by simp

lemma bit_or_exp: "bit ((m::nat) OR 2 ^ v) i \<longleftrightarrow> bit m i \<or> i = v"
  by (auto simp: bit_or_iff bit_exp_iff)

lemma bit_xor_exp: "bit ((m::nat) XOR 2 ^ v) i \<longleftrightarrow> (bit m i \<noteq> (i = v))"
  by (auto simp: bit_xor_iff bit_exp_iff)

lemma arrangement_iff: "arrangement m p \<longleftrightarrow> distinct p \<and> (\<forall>i. i \<in> set p \<longleftrightarrow> bit m i)"
  unfolding arrangement_def by blast

lemma lt_exp_iff_bits: "(m::nat) < 2 ^ n \<longleftrightarrow> (\<forall>i. bit m i \<longrightarrow> i < n)"
proof
  assume "m < 2 ^ n"
  then have "take_bit n m = m" by (simp add: take_bit_nat_eq_self_iff)
  then have "bit m i \<longleftrightarrow> i < n \<and> bit m i" for i
    by (metis bit_take_bit_iff)
  then show "\<forall>i. bit m i \<longrightarrow> i < n" by blast
next
  assume a: "\<forall>i. bit m i \<longrightarrow> i < n"
  have "take_bit n m = m"
    by (rule bit_eqI) (use a in \<open>auto simp: bit_take_bit_iff\<close>)
  then show "m < 2 ^ n"
    by (simp add: take_bit_nat_eq_self_iff)
qed

lemma xor_exp_less:
  assumes "bit (m::nat) u"
  shows "m XOR push_bit u 1 < m"
proof -
  have disj: "(m XOR push_bit u 1) AND push_bit u 1 = 0"
    by (rule bit_eqI) (use assms in \<open>auto simp: bit_and_iff bit_xor_iff bit_exp_iff\<close>)
  have "(m XOR push_bit u 1) + push_bit u 1 = (m XOR push_bit u 1) OR push_bit u 1"
    using disj by (rule disjunctive_add_eq_or)
  also have "\<dots> = m"
    by (rule bit_eqI) (use assms in \<open>auto simp: bit_or_iff bit_xor_iff bit_exp_iff\<close>)
  finally have "(m XOR push_bit u 1) + 2 ^ u = m" by simp
  moreover have "(0::nat) < 2 ^ u" by simp
  ultimately show ?thesis by linarith
qed

lemma foldE_upt_rule:
  assumes "a \<le> b" and "I a s"
    and "\<And>i s. a \<le> i \<Longrightarrow> i < b \<Longrightarrow> I i s \<Longrightarrow> \<exists>s'. f i s = Inr s' \<and> I (Suc i) s'"
  shows "\<exists>s'. foldE f [a..<b] s = Inr s' \<and> I b s'"
  using assms
proof (induction "b - a" arbitrary: a s)
  case 0
  then show ?case by simp
next
  case (Suc k)
  then have ab: "a < b" by simp
  from Suc.prems(3)[OF order_refl ab Suc.prems(2)] obtain s1
    where s1: "f a s = Inr s1" "I (Suc a) s1" by blast
  have "\<exists>s'. foldE f [Suc a..<b] s1 = Inr s' \<and> I b s'"
  proof (rule Suc.hyps(1))
    show "k = b - Suc a" using Suc.hyps(2) by simp
    show "Suc a \<le> b" using ab by simp
    show "I (Suc a) s1" by (rule s1)
    show "\<exists>s'. f i s = Inr s' \<and> I (Suc i) s'" if "Suc a \<le> i" "i < b" "I i s" for i s
      using Suc.prems(3)[of i s] that by simp
  qed
  with s1(1) ab show ?case by (simp add: upt_conv_Cons)
qed

lemma legs_length_append:
  "legs_length ds prev (xs @ [x]) acc
     = fadd (legs_length ds prev xs acc) (dist ds (last (prev # xs)) x)"
  by (induction xs arbitrary: prev acc) simp_all

lemma path_length_snoc:
  assumes "q \<noteq> []"
  shows "path_length ds home (q @ [x]) = fadd (path_length ds home q) (dist ds (last q) x)"
proof -
  from assms obtain d rest where q: "q = d # rest" by (cases q) auto
  show ?thesis unfolding q path_length_def by (simp add: legs_length_append)
qed


lemma relax_effect:
  assumes "ds (names ! u, names ! v) = Some d"
  shows "relax names ds m u v tabs =
           Inr ((fst tabs)((v, m OR push_bit v 1) :=
                   min (fst tabs (v, m OR push_bit v 1)) (fadd (fst tabs (u, m)) d)),
                (if fadd (fst tabs (u, m)) d < fst tabs (v, m OR push_bit v 1)
                 then (snd tabs)((v, m OR push_bit v 1) := int u) else snd tabs))"
proof (cases "fadd (fst tabs (u, m)) d < fst tabs (v, m OR push_bit v 1)")
  case True
  then have "min (fst tabs (v, m OR push_bit v 1)) (fadd (fst tabs (u, m)) d)
               = fadd (fst tabs (u, m)) d"
    by (intro min_absorb2) (rule less_imp_le)
  with True assms show ?thesis
    unfolding relax_def lookup_def Let_def by simp
next
  case False
  then have "min (fst tabs (v, m OR push_bit v 1)) (fadd (fst tabs (u, m)) d)
               = fst tabs (v, m OR push_bit v 1)"
    by (intro min_absorb1) (simp only: not_less)
  with False assms show ?thesis
    unfolding relax_def lookup_def Let_def by simp
qed

lemma tour_cost_snoc:
  assumes "q \<noteq> []"
  shows "tour_cost ds home names (q @ [v])
           = fadd (tour_cost ds home names q) (dist ds (names ! last q) (names ! v))"
  using assms by (simp add: tour_cost_def path_length_snoc last_map)

lemma arrangement_snoc:
  assumes "arrangement m q" and "\<not> bit m v"
  shows "arrangement (m OR push_bit v 1) (q @ [v])"
proof -
  from assms have "distinct q" and mem: "\<And>i. i \<in> set q \<longleftrightarrow> bit m i"
    by (simp_all add: arrangement_iff)
  with assms(2) have "distinct (q @ [v])" by simp
  moreover have "i \<in> set (q @ [v]) \<longleftrightarrow> bit (m OR 2 ^ v) i" for i
    unfolding bit_or_exp using mem[of i] by auto
  ultimately show ?thesis by (simp add: arrangement_iff)
qed

lemma arrangement_butlast:
  assumes "arrangement m0 p" and "p \<noteq> []" and "last p = v"
  shows "arrangement (m0 XOR push_bit v 1) (butlast p)"
proof -
  from assms(2,3) obtain q where p: "p = q @ [v]"
    by (metis append_butlast_last_id)
  from assms(1) have "distinct (q @ [v])" and mem: "\<And>i. i \<in> set (q @ [v]) \<longleftrightarrow> bit m0 i"
    unfolding p by (simp_all add: arrangement_iff)
  then have dq: "distinct q" and vq: "v \<notin> set q" by simp_all
  have "i \<in> set q \<longleftrightarrow> bit (m0 XOR 2 ^ v) i" for i
    unfolding bit_xor_exp using mem[of i] vq by auto
  with dq have "arrangement (m0 XOR 2 ^ v) q" by (simp add: arrangement_iff)
  then show ?thesis unfolding p by simp
qed


lemma inv_attained_relax:
  assumes inv: "inv_attained ds home names (dp, par)"
    and d: "ds (names ! u, names ! v) = Some d"
    and uv: "bit m u" "\<not> bit m v"
  shows "inv_attained ds home names
           (dp((v, m OR push_bit v 1) := min (dp (v, m OR push_bit v 1)) (fadd (dp (u, m)) d)),
            par')"
  unfolding inv_attained_def fst_conv
proof (intro allI impI)
  fix v0 m0
  let ?dp' = "dp((v, m OR push_bit v 1) := min (dp (v, m OR push_bit v 1)) (fadd (dp (u, m)) d))"
  assume fin: "?dp' (v0, m0) \<noteq> PInf"
  note old = inv[unfolded inv_attained_def fst_conv, rule_format]
  show "\<exists>p. arrangement m0 p \<and> p \<noteq> [] \<and> last p = v0 \<and> ?dp' (v0, m0) = tour_cost ds home names p"
  proof (cases "(v0, m0) = (v, m OR push_bit v 1)")
    case False
    then have same: "?dp' (v0, m0) = dp (v0, m0)" by (rule fun_upd_other)
    from fin old[of v0 m0] show ?thesis unfolding same by blast
  next
    case True
    then have v0: "v0 = v" and m0: "m0 = m OR push_bit v 1" by simp_all
    have val: "?dp' (v0, m0) = min (dp (v, m OR push_bit v 1)) (fadd (dp (u, m)) d)"
      unfolding v0 m0 by simp
    show ?thesis
    proof (cases "dp (v, m OR push_bit v 1) \<le> fadd (dp (u, m)) d")
      case True
      then have "?dp' (v0, m0) = dp (v0, m0)" unfolding val v0 m0 by (simp add: min_absorb1)
      with fin old[of v0 m0] show ?thesis by simp
    next
      case False
      then have nd: "?dp' (v0, m0) = fadd (dp (u, m)) d" unfolding val by (simp add: min_def)
      with fin have "dp (u, m) \<noteq> PInf" by (auto simp: fadd_PInf_iff)
      from old[OF this] obtain q where q: "arrangement m q" "q \<noteq> []" "last q = u"
        "dp (u, m) = tour_cost ds home names q" by blast
      have "arrangement m0 (q @ [v])" unfolding m0 using q(1) uv(2) by (rule arrangement_snoc)
      moreover have "tour_cost ds home names (q @ [v]) = fadd (dp (u, m)) d"
        using d q by (simp add: tour_cost_snoc dist_def)
      ultimately show ?thesis using nd v0 by (intro exI[of _ "q @ [v]"]) simp
    qed
  qed
qed

lemma inv_bound_relax:
  assumes inv: "inv_bound ds home names relaxed (dp, par)"
    and d: "ds (names ! u, names ! v) = Some d"
    and uv: "bit m u" "\<not> bit m v" and un: "u < length names"
    and R: "\<And>u'. u' \<noteq> u \<Longrightarrow> bit m u' \<Longrightarrow> relaxed (m XOR push_bit u 1, u', u)"
  shows "inv_bound ds home names (\<lambda>t. relaxed t \<or> t = (m, u, v))
           (dp((v, m OR push_bit v 1) := min (dp (v, m OR push_bit v 1)) (fadd (dp (u, m)) d)),
            par')"
  unfolding inv_bound_def fst_conv
proof (intro allI impI, elim conjE)
  fix v0 m0 p
  let ?m' = "m OR push_bit v 1"
  let ?dp' = "dp((v, ?m') := min (dp (v, ?m')) (fadd (dp (u, m)) d))"
  note old = inv[unfolded inv_bound_def fst_conv, rule_format]
  assume v0: "v0 < length names" and arr: "arrangement m0 p" and ne: "p \<noteq> []"
    and lst: "last p = v0"
    and step: "length p = 1 \<or>
       (relaxed (m0 XOR push_bit v0 1, last (butlast p), v0) \<or>
        (m0 XOR push_bit v0 1, last (butlast p), v0) = (m, u, v))"
  have le_old: "?dp' (a, b) \<le> dp (a, b)" for a b by simp
  have src: "dp (u, m) \<le> tour_cost ds home names q"
    if q: "arrangement m q" "q \<noteq> []" "last q = u" for q
  proof (rule old, intro conjI)
    show "u < length names" by (rule un)
    show "arrangement m q" "q \<noteq> []" "last q = u" by (rule q)+
    show "length q = 1 \<or> relaxed (m XOR push_bit u 1, last (butlast q), u)"
    proof (cases "butlast q = []")
      case True
      with q(2) have "length q = 1" by (cases q) (auto split: if_splits)
      then show ?thesis by simp
    next
      case False
      from q(2,3) have qq: "q = butlast q @ [u]" by (metis append_butlast_last_id)
      from False have "last (butlast q) \<in> set (butlast q)" by simp
      moreover from q(1) have "distinct (butlast q @ [u])"
        and mem: "\<And>i. i \<in> set (butlast q @ [u]) \<longleftrightarrow> bit m i"
        using qq by (simp_all add: arrangement_iff)
      ultimately have "last (butlast q) \<noteq> u" and "bit m (last (butlast q))"
        using mem[of "last (butlast q)"] by auto
      then show ?thesis using R by simp
    qed
  qed
  from step consider (prior) "length p = 1 \<or> relaxed (m0 XOR push_bit v0 1, last (butlast p), v0)"
    | (fresh) "(m0 XOR push_bit v0 1, last (butlast p), v0) = (m, u, v)" by blast
  then show "?dp' (v0, m0) \<le> tour_cost ds home names p"
  proof cases
    case prior
    with old[of v0 m0 p] v0 arr ne lst have "dp (v0, m0) \<le> tour_cost ds home names p" by blast
    with le_old[of v0 m0] show ?thesis by (rule order_trans)
  next
    case fresh
    then have v0v: "v0 = v" and mx: "m0 XOR push_bit v 1 = m" and lb: "last (butlast p) = u"
      by auto
    from arr ne lst have bq: "arrangement (m0 XOR push_bit v0 1) (butlast p)"
      by (rule arrangement_butlast)
    then have aq: "arrangement m (butlast p)" unfolding v0v mx .
    from aq uv(1) have "u \<in> set (butlast p)" by (simp add: arrangement_iff)
    then have qne: "butlast p \<noteq> []" by auto
    from ne lst v0v have pq: "p = butlast p @ [v]" by (metis append_butlast_last_id)
    from arr ne lst v0v have "bit m0 v" unfolding arrangement_iff by (metis last_in_set)
    have m0: "m0 = ?m'"
    proof (rule bit_eqI)
      fix i
      have "bit m i \<longleftrightarrow> (bit m0 i \<noteq> (i = v))"
        using mx bit_xor_exp[of m0 v i] by simp
      with \<open>bit m0 v\<close> show "bit m0 i \<longleftrightarrow> bit ?m' i"
        by (auto simp: bit_or_exp)
    qed
    have "tour_cost ds home names p = tour_cost ds home names (butlast p @ [v])"
      using pq by simp
    also have "\<dots> = fadd (tour_cost ds home names (butlast p)) d"
      using qne lb d by (simp add: tour_cost_snoc dist_def)
    finally have cost: "tour_cost ds home names p = fadd (tour_cost ds home names (butlast p)) d" .
    have "fadd (dp (u, m)) d \<le> fadd (tour_cost ds home names (butlast p)) d"
      by (rule fadd_mono_left) (rule src[OF aq qne lb])
    moreover have "?dp' (v0, m0) \<le> fadd (dp (u, m)) d"
      unfolding v0v m0 by simp
    ultimately show ?thesis unfolding cost by (rule order_trans[rotated])
  qed
qed

lemma or_xor_exp:
  assumes "\<not> bit (m::nat) v"
  shows "(m OR 2 ^ v) XOR 2 ^ v = m"
  by (rule bit_eqI) (use assms in \<open>auto simp: bit_xor_exp bit_or_exp\<close>)

lemma min_not_PInf: "a \<noteq> PInf \<or> b \<noteq> PInf \<Longrightarrow> min a b \<noteq> (PInf::fl)"
  by (cases a; cases b) (auto simp: min_def)

lemma inv_parent_relax:
  assumes inv: "inv_parent n (dp, par)"
    and uv: "bit m u" "\<not> bit m v" and un: "u < n"
  shows "inv_parent n
           (dp((v, m OR push_bit v 1) := min (dp (v, m OR push_bit v 1)) (fadd (dp (u, m)) d)),
            (if fadd (dp (u, m)) d < dp (v, m OR push_bit v 1)
             then par((v, m OR push_bit v 1) := int u) else par))"
proof -
  let ?m' = "m OR push_bit v 1"
  let ?nd = "fadd (dp (u, m)) d"
  note parts = inv[unfolded inv_parent_def fst_conv snd_conv]
  note old1 = parts[THEN conjunct1, rule_format]
  note old2 = parts[THEN conjunct2, THEN conjunct1, rule_format]
  note old3 = parts[THEN conjunct2, THEN conjunct2, rule_format]
  from uv have uv': "u \<noteq> v" by auto
  have link: "\<exists>w<n. int u = int w \<and> w \<noteq> v \<and> bit ?m' w \<and> bit ?m' v"
    using uv un uv' by (intro exI[of _ u]) (simp add: bit_or_exp)
  show ?thesis
  proof (cases "?nd < dp (v, ?m')")
    case True
    then have mn: "min (dp (v, ?m')) ?nd = ?nd" by (intro min_absorb2) (rule less_imp_le)
    from True have nd_fin: "?nd \<noteq> PInf" by (metis fl_le_PInf not_less)
    then have src_fin: "dp (u, m) \<noteq> PInf" by (auto simp: fadd_PInf_iff)
    show ?thesis
      unfolding inv_parent_def fst_conv snd_conv mn if_P[OF True]
    proof (intro conjI allI impI)
      fix v0 m0
      show "(par((v, ?m') := int u)) (v0, m0) = - 1 \<or>
            (\<exists>w<n. (par((v, ?m') := int u)) (v0, m0) = int w \<and> w \<noteq> v0 \<and> bit m0 w \<and> bit m0 v0)"
      proof (cases "(v0, m0) = (v, ?m')")
        case True
        then have "v0 = v" "m0 = ?m'" by simp_all
        with link show ?thesis by simp
      next
        case False
        show ?thesis unfolding fun_upd_other[OF False] by (rule old1)
      qed
    next
      fix v0 m0
      assume a: "(dp((v, ?m') := ?nd)) (v0, m0) \<noteq> PInf \<and> m0 \<noteq> push_bit v0 1"
      show "(par((v, ?m') := int u)) (v0, m0) \<noteq> - 1"
      proof (cases "(v0, m0) = (v, ?m')")
        case True
        then show ?thesis by simp
      next
        case False
        from a show ?thesis unfolding fun_upd_other[OF False] by (rule old2)
      qed
    next
      fix v0 m0 u0
      assume a: "(par((v, ?m') := int u)) (v0, m0) = int u0"
      have old_fin: "dp (u0, m0 XOR push_bit v0 1) \<noteq> PInf"
      proof (cases "(v0, m0) = (v, ?m')")
        case True
        then have e: "v0 = v" "m0 = ?m'" by simp_all
        with a have "u0 = u" by simp
        moreover have "m0 XOR push_bit v0 1 = m" unfolding e using or_xor_exp[OF uv(2)] by simp
        ultimately show ?thesis using src_fin by simp
      next
        case False
        from a show ?thesis unfolding fun_upd_other[OF False] by (rule old3)
      qed
      show "(dp((v, ?m') := ?nd)) (u0, m0 XOR push_bit v0 1) \<noteq> PInf"
      proof (cases "(u0, m0 XOR push_bit v0 1) = (v, ?m')")
        case True
        then show ?thesis using nd_fin by simp
      next
        case False
        show ?thesis unfolding fun_upd_other[OF False] by (rule old_fin)
      qed
    qed
  next
    case False
    then have mn: "min (dp (v, ?m')) ?nd = dp (v, ?m')"
      by (intro min_absorb1) (simp only: not_less)
    have "dp((v, ?m') := dp (v, ?m')) = dp" by (rule fun_upd_triv)
    with inv show ?thesis unfolding mn if_not_P[OF False] by simp
  qed
qed

lemma matrix_complete_iff:
  "matrix_complete ds home names \<longleftrightarrow>
     (\<forall>i<length names. ds (home, names ! i) \<noteq> None) \<and>
     (\<forall>u<length names. \<forall>v<length names. u \<noteq> v \<longrightarrow> ds (names ! u, names ! v) \<noteq> None)"
  unfolding matrix_complete_def list_all_iff by auto

lemma relax_step:
  assumes inv: "hk_inv ds home names relaxed tabs"
    and comp: "matrix_complete ds home names"
    and valid: "valid_triple (length names) (m, u, v)"
    and R: "\<And>u'. u' \<noteq> u \<Longrightarrow> bit m u' \<Longrightarrow> relaxed (m XOR push_bit u 1, u', u)"
  shows "\<exists>tabs'. relax names ds m u v tabs = Inr tabs' \<and>
           hk_inv ds home names (\<lambda>t. relaxed t \<or> t = (m, u, v)) tabs'"
proof -
  obtain dp par where tabs: "tabs = (dp, par)" by (cases tabs)
  from valid have un: "u < length names" and vn: "v < length names"
    and bu: "bit m u" and bv: "\<not> bit m v"
    by (simp_all add: valid_triple_def)
  from bu bv have "u \<noteq> v" by auto
  with comp un vn obtain d where d: "ds (names ! u, names ! v) = Some d"
    unfolding matrix_complete_iff by blast
  let ?m' = "m OR push_bit v 1"
  let ?dp' = "dp((v, ?m') := min (dp (v, ?m')) (fadd (dp (u, m)) d))"
  let ?par' = "if fadd (dp (u, m)) d < dp (v, ?m') then par((v, ?m') := int u) else par"
  from inv have i1: "inv_attained ds home names (dp, par)"
    and i2: "inv_bound ds home names relaxed (dp, par)"
    and i3: "inv_parent (length names) (dp, par)"
    unfolding hk_inv_def tabs by simp_all
  have "relax names ds m u v tabs = Inr (?dp', ?par')"
    using relax_effect[of ds names u v d m tabs, OF d] unfolding tabs fst_conv snd_conv .
  moreover have "inv_attained ds home names (?dp', ?par')"
    using i1 d bu bv by (rule inv_attained_relax)
  moreover have "inv_bound ds home names (\<lambda>t. relaxed t \<or> t = (m, u, v)) (?dp', ?par')"
    using i2 d bu bv un R by (rule inv_bound_relax)
  moreover have "inv_parent (length names) (?dp', ?par')"
    using i3 bu bv un by (rule inv_parent_relax)
  ultimately show ?thesis unfolding hk_inv_def by blast
qed

lemma processed_add:
  assumes "valid_triple n (M, U, V)"
  shows "(\<lambda>t. processed n M U V t \<or> t = (M, U, V)) = processed n M U (Suc V)"
proof (rule ext)
  fix t :: "nat \<times> nat \<times> nat"
  obtain m u v where t: "t = (m, u, v)" by (cases t)
  show "(processed n M U V t \<or> t = (M, U, V)) = processed n M U (Suc V) t"
    unfolding t processed_def using assms by (auto simp: less_Suc_eq)
qed

lemma processed_skip_v:
  assumes "\<not> valid_triple n (M, U, V)"
  shows "processed n M U (Suc V) = processed n M U V"
proof (rule ext)
  fix t :: "nat \<times> nat \<times> nat"
  obtain m u v where t: "t = (m, u, v)" by (cases t)
  show "processed n M U (Suc V) t = processed n M U V t"
    unfolding t processed_def using assms by (auto simp: less_Suc_eq)
qed

lemma processed_end_v: "processed n M U n = processed n M (Suc U) 0"
proof (rule ext)
  fix t :: "nat \<times> nat \<times> nat"
  obtain m u v where t: "t = (m, u, v)" by (cases t)
  show "processed n M U n t = processed n M (Suc U) 0 t"
    unfolding t processed_def by (auto simp: less_Suc_eq valid_triple_def)
qed

lemma processed_skip_u:
  assumes "\<not> bit M U"
  shows "processed n M (Suc U) 0 = processed n M U 0"
proof (rule ext)
  fix t :: "nat \<times> nat \<times> nat"
  obtain m u v where t: "t = (m, u, v)" by (cases t)
  show "processed n M (Suc U) 0 t = processed n M U 0 t"
    unfolding t processed_def using assms by (auto simp: less_Suc_eq valid_triple_def)
qed

lemma processed_end_u: "processed n M n 0 = processed n (Suc M) 0 0"
proof (rule ext)
  fix t :: "nat \<times> nat \<times> nat"
  obtain m u v where t: "t = (m, u, v)" by (cases t)
  show "processed n M n 0 t = processed n (Suc M) 0 0 t"
    unfolding t processed_def by (auto simp: less_Suc_eq valid_triple_def)
qed

lemma processed_none: "processed n (Suc 0) 0 0 t = False"
proof -
  obtain m u v where t: "t = (m, u, v)" by (cases t)
  show ?thesis unfolding t processed_def valid_triple_def by auto
qed

lemma processed_all: "processed n (2 ^ n) 0 0 = valid_triple n"
proof (rule ext)
  fix t :: "nat \<times> nat \<times> nat"
  obtain m u v where t: "t = (m, u, v)" by (cases t)
  show "processed n (2 ^ n) 0 0 t = valid_triple n t"
    unfolding t processed_def by (auto simp: valid_triple_def)
qed

lemma processed_sources:
  assumes "valid_triple n (M, U, V)" and "u' \<noteq> U" and "bit M u'"
  shows "processed n M U V (M XOR push_bit U 1, u', U)"
proof -
  from assms(1) have U: "U < n" "bit M U" and M: "M < 2 ^ n"
    by (simp_all add: valid_triple_def)
  from xor_exp_less[OF U(2)] have less: "M XOR push_bit U 1 < M" .
  with M have "M XOR push_bit U 1 < 2 ^ n" by simp
  moreover from M assms(3) have "u' < n" by (simp add: lt_exp_iff_bits)
  moreover have "bit (M XOR 2 ^ U) u'" "\<not> bit (M XOR 2 ^ U) U"
    using assms(2,3) U(2) by (simp_all add: bit_xor_exp)
  ultimately show ?thesis
    using less U(1) unfolding processed_def valid_triple_def by simp
qed


lemma loop_v_correct:
  assumes inv: "hk_inv ds home names (processed (length names) M U 0) tabs"
    and comp: "matrix_complete ds home names"
    and U: "U < length names" "bit M U" and M: "M < 2 ^ length names"
  shows "\<exists>tabs'. loop_v names ds (length names) M U tabs = Inr tabs' \<and>
           hk_inv ds home names (processed (length names) M (Suc U) 0) tabs'"
proof -
  let ?n = "length names"
  let ?body = "\<lambda>v tabs. if \<not> (M AND push_bit v 1 \<noteq> 0)
                     then relax names ds M U v tabs else Inr tabs"
  have "\<exists>tabs'. foldE ?body [0..<?n] tabs = Inr tabs' \<and>
          hk_inv ds home names (processed ?n M U ?n) tabs'"
  proof (rule foldE_upt_rule[where I = "\<lambda>V t. hk_inv ds home names (processed ?n M U V) t"])
    show "0 \<le> ?n" by simp
    show "hk_inv ds home names (processed ?n M U 0) tabs" by (rule inv)
    fix V t
    assume V: "V < ?n" and I: "hk_inv ds home names (processed ?n M U V) t"
    show "\<exists>s'. ?body V t = Inr s' \<and> hk_inv ds home names (processed ?n M U (Suc V)) s'"
    proof (cases "bit M V")
      case True
      then have "\<not> valid_triple ?n (M, U, V)" by (simp add: valid_triple_def)
      from processed_skip_v[OF this] I True show ?thesis
        by (simp add: masked_iff_bit)
    next
      case False
      with U V M have valid: "valid_triple ?n (M, U, V)" by (simp add: valid_triple_def)
      from relax_step[OF I comp valid processed_sources[OF valid]]
      obtain s' where "relax names ds M U V t = Inr s'"
        and "hk_inv ds home names (\<lambda>t. processed ?n M U V t \<or> t = (M, U, V)) s'"
        by blast
      with False show ?thesis
        unfolding processed_add[OF valid] by (simp add: masked_iff_bit)
    qed
  qed
  then show ?thesis unfolding loop_v_def processed_end_v .
qed

lemma loop_u_correct:
  assumes inv: "hk_inv ds home names (processed (length names) M 0 0) tabs"
    and comp: "matrix_complete ds home names"
    and M: "M < 2 ^ length names"
  shows "\<exists>tabs'. loop_u names ds (length names) M tabs = Inr tabs' \<and>
           hk_inv ds home names (processed (length names) (Suc M) 0 0) tabs'"
proof -
  let ?n = "length names"
  let ?body = "\<lambda>u tabs. if M AND push_bit u 1 \<noteq> 0
                     then loop_v names ds ?n M u tabs else Inr tabs"
  have "\<exists>tabs'. foldE ?body [0..<?n] tabs = Inr tabs' \<and>
          hk_inv ds home names (processed ?n M ?n 0) tabs'"
  proof (rule foldE_upt_rule[where I = "\<lambda>U t. hk_inv ds home names (processed ?n M U 0) t"])
    show "0 \<le> ?n" by simp
    show "hk_inv ds home names (processed ?n M 0 0) tabs" by (rule inv)
    fix U t
    assume U: "U < ?n" and I: "hk_inv ds home names (processed ?n M U 0) t"
    show "\<exists>s'. ?body U t = Inr s' \<and> hk_inv ds home names (processed ?n M (Suc U) 0) s'"
    proof (cases "bit M U")
      case True
      from loop_v_correct[OF I comp U True M] True show ?thesis
        by (simp add: masked_iff_bit)
    next
      case False
      from processed_skip_u[OF False] I False show ?thesis
        by (simp add: masked_iff_bit)
    qed
  qed
  then show ?thesis unfolding loop_u_def processed_end_u .
qed

lemma loop_mask_correct:
  assumes inv: "hk_inv ds home names (processed (length names) (Suc 0) 0 0) tabs"
    and comp: "matrix_complete ds home names"
  shows "\<exists>tabs'. loop_mask names ds (length names) tabs = Inr tabs' \<and>
           hk_inv ds home names (valid_triple (length names)) tabs'"
proof -
  let ?n = "length names"
  have "\<exists>tabs'. foldE (loop_u names ds ?n) [Suc 0..<2 ^ ?n] tabs = Inr tabs' \<and>
          hk_inv ds home names (processed ?n (2 ^ ?n) 0 0) tabs'"
  proof (rule foldE_upt_rule[where I = "\<lambda>M t. hk_inv ds home names (processed ?n M 0 0) t"])
    show "Suc 0 \<le> 2 ^ ?n" by simp
    show "hk_inv ds home names (processed ?n (Suc 0) 0 0) tabs" by (rule inv)
    fix M t
    assume "M < 2 ^ ?n" and "hk_inv ds home names (processed ?n M 0 0) t"
    then show "\<exists>s'. loop_u names ds ?n M t = Inr s' \<and>
                 hk_inv ds home names (processed ?n (Suc M) 0 0) s'"
      using comp by (intro loop_u_correct)
  qed
  then show ?thesis unfolding loop_mask_def processed_all by simp
qed

lemma arrangement_single: "arrangement m [v] \<longleftrightarrow> m = 2 ^ v"
proof
  assume "arrangement m [v]"
  then have mem: "\<And>i. i = v \<longleftrightarrow> bit m i" by (simp add: arrangement_iff)
  show "m = 2 ^ v"
    by (rule bit_eqI) (use mem in \<open>auto simp: bit_exp_iff\<close>)
next
  assume "m = 2 ^ v"
  then show "arrangement m [v]" by (auto simp: arrangement_iff bit_exp_iff)
qed

lemma tour_cost_single: "tour_cost ds home names [v] = dist ds home (names ! v)"
  by (simp add: tour_cost_def path_length_def)

lemma init_correct:
  assumes comp: "matrix_complete ds home names"
  shows "\<exists>tabs. foldE (init_step names ds home) [0..<length names] init_tables = Inr tabs \<and>
           hk_inv ds home names (processed (length names) (Suc 0) 0 0) tabs"
proof -
  let ?n = "length names"
  let ?I = "\<lambda>k (t::tables). fst t = (\<lambda>(i, m). if i < k \<and> m = 2 ^ i
                                           then dist ds home (names ! i) else PInf)
                             \<and> snd t = (\<lambda>_. - 1)"
  have "\<exists>tabs. foldE (init_step names ds home) [0..<?n] init_tables = Inr tabs \<and> ?I ?n tabs"
  proof (rule foldE_upt_rule[where I = ?I])
    show "0 \<le> ?n" by simp
    show "?I 0 init_tables" by (simp add: init_tables_def fun_eq_iff)
    fix k and t :: tables
    assume k: "k < ?n" and I: "?I k t"
    from comp k obtain d where d: "ds (home, names ! k) = Some d"
      unfolding matrix_complete_iff by blast
    then have step: "init_step names ds home k t = Inr ((fst t)((k, 2 ^ k) := d), snd t)"
      by (simp add: init_step_def lookup_def)
    have "(fst t)((k, 2 ^ k) := d)
            = (\<lambda>(i, m). if i < Suc k \<and> m = 2 ^ i then dist ds home (names ! i) else PInf)"
      using I d by (auto simp: fun_eq_iff dist_def less_Suc_eq)
    with step I show "\<exists>s'. init_step names ds home k t = Inr s' \<and> ?I (Suc k) s'"
      by simp
  qed
  then obtain tabs where run: "foldE (init_step names ds home) [0..<?n] init_tables = Inr tabs"
    and dp: "fst tabs = (\<lambda>(i, m). if i < ?n \<and> m = 2 ^ i then dist ds home (names ! i) else PInf)"
    and par: "snd tabs = (\<lambda>_. - 1)" by blast
  have a: "inv_attained ds home names tabs"
    unfolding inv_attained_def dp
  proof (intro allI impI)
    fix v m :: nat
    assume "(case (v, m) of (i, m) \<Rightarrow> if i < ?n \<and> m = 2 ^ i
               then dist ds home (names ! i) else PInf) \<noteq> PInf"
    then have "v < ?n" "m = 2 ^ v" by (auto split: if_splits)
    then show "\<exists>p. arrangement m p \<and> p \<noteq> [] \<and> last p = v \<and>
            (case (v, m) of (i, m) \<Rightarrow> if i < ?n \<and> m = 2 ^ i
               then dist ds home (names ! i) else PInf) = tour_cost ds home names p"
      by (intro exI[of _ "[v]"]) (simp add: arrangement_single tour_cost_single)
  qed
  have b: "inv_bound ds home names (processed ?n (Suc 0) 0 0) tabs"
    unfolding inv_bound_def dp processed_none
  proof (intro allI impI, elim conjE)
    fix v m :: nat and p :: "nat list"
    assume v: "v < ?n" and arr: "arrangement m p" and "p \<noteq> []" and lst: "last p = v"
      and "length p = 1 \<or> False"
    then have "p = [v]" by (cases p) auto
    with arr have "m = 2 ^ v" by (simp add: arrangement_single)
    with v \<open>p = [v]\<close>
    show "(case (v, m) of (i, m) \<Rightarrow> if i < ?n \<and> m = 2 ^ i
               then dist ds home (names ! i) else PInf) \<le> tour_cost ds home names p"
      by (simp add: tour_cost_single)
  qed
  have c: "inv_parent ?n tabs"
    unfolding inv_parent_def dp par by (auto split: if_splits)
  from run a b c show ?thesis unfolding hk_inv_def by blast
qed

lemma held_karp_correct:
  assumes comp: "matrix_complete ds home names"
  shows "\<exists>tabs. held_karp names ds home = Inr tabs \<and>
           hk_inv ds home names (valid_triple (length names)) tabs"
proof -
  from init_correct[OF comp] obtain t0
    where t0: "foldE (init_step names ds home) [0..<length names] init_tables = Inr t0"
      and i0: "hk_inv ds home names (processed (length names) (Suc 0) 0 0) t0" by blast
  from loop_mask_correct[OF i0 comp] t0 show ?thesis
    by (simp add: held_karp_def Let_def)
qed



lemma full_mask_less: "(push_bit n 1 - 1 :: nat) < 2 ^ n"
  by simp

lemma arrangement_nonempty:
  assumes "arrangement m p" and "bit m v"
  shows "p \<noteq> []"
  using assms by (auto simp: arrangement_iff)

lemma arrangement_exists:
  assumes "m < 2 ^ n" and "bit m v"
  shows "\<exists>p. arrangement m p \<and> last p = v"
proof -
  have fin: "finite {i. bit m i}"
  proof (rule finite_subset)
    show "{i. bit m i} \<subseteq> {..<n}" using assms(1) by (auto simp: lt_exp_iff_bits)
  qed simp
  let ?q = "sorted_list_of_set ({i. bit m i} - {v})"
  have "distinct (?q @ [v])" using fin by simp
  moreover have "i \<in> set (?q @ [v]) \<longleftrightarrow> bit m i" for i
    using fin assms(2) by auto
  ultimately have "arrangement m (?q @ [v])" by (simp only: arrangement_iff simp_thms)
  then show ?thesis by (intro exI[of _ "?q @ [v]"]) simp
qed

lemma final_bound:
  assumes inv: "hk_inv ds home names (valid_triple (length names)) tabs"
    and v: "v < length names" and m: "m < 2 ^ length names"
    and arr: "arrangement m p" and ne: "p \<noteq> []" and lst: "last p = v"
  shows "fst tabs (v, m) \<le> tour_cost ds home names p"
proof -
  from inv have b: "inv_bound ds home names (valid_triple (length names)) tabs"
    by (simp add: hk_inv_def)
  show ?thesis
  proof (rule b[unfolded inv_bound_def, rule_format], intro conjI)
    show "v < length names" "arrangement m p" "p \<noteq> []" "last p = v"
      by (rule v arr ne lst)+
    show "length p = 1 \<or>
          valid_triple (length names) (m XOR push_bit v 1, last (butlast p), v)"
    proof (cases "butlast p = []")
      case True
      with ne have "length p = 1" by (cases p) (auto split: if_splits)
      then show ?thesis by simp
    next
      case False
      from arr ne lst have aq: "arrangement (m XOR 2 ^ v) (butlast p)"
        using arrangement_butlast[of m p v] by simp
      from False have "last (butlast p) \<in> set (butlast p)" by simp
      with aq have bu: "bit (m XOR 2 ^ v) (last (butlast p))" by (simp add: arrangement_iff)
      from arr ne lst have "bit m v" unfolding arrangement_iff by (metis last_in_set)
      with bu have "bit m (last (butlast p))" by (auto simp: bit_xor_exp)
      with m have un: "last (butlast p) < length names" by (simp add: lt_exp_iff_bits)
      from \<open>bit m v\<close> have nv: "\<not> bit (m XOR 2 ^ v) v" by (simp add: bit_xor_exp)
      from xor_exp_less[OF \<open>bit m v\<close>] m have "m XOR 2 ^ v < 2 ^ length names" by simp
      with un v bu nv show ?thesis by (simp add: valid_triple_def)
    qed
  qed
qed

lemma final_attained:
  assumes inv: "hk_inv ds home names (valid_triple (length names)) tabs"
    and v: "v < length names" and m: "m < 2 ^ length names" and bv: "bit m v"
  shows "\<exists>p. arrangement m p \<and> p \<noteq> [] \<and> last p = v \<and>
           fst tabs (v, m) = tour_cost ds home names p"
proof (cases "fst tabs (v, m) = PInf")
  case False
  from inv have "inv_attained ds home names tabs" by (simp add: hk_inv_def)
  from this[unfolded inv_attained_def, rule_format, OF False] show ?thesis .
next
  case True
  from arrangement_exists[OF m bv] obtain p where p: "arrangement m p" "last p = v" by blast
  from arrangement_nonempty[OF p(1) bv] have ne: "p \<noteq> []" .
  from final_bound[OF inv v m p(1) ne p(2)] True
  have "tour_cost ds home names p = PInf" by simp
  with p ne True show ?thesis by auto
qed

lemma fold_upt_Suc: "fold f [0..<Suc k] s = f k (fold f [0..<k] s)"
  by simp

lemma select_last_correct:
  assumes "select_last dp n fm = (d, l)"
  shows "(\<forall>i<n. d \<le> dp (i, fm)) \<and>
         ((l = - 1 \<and> d = PInf) \<or> (\<exists>i<n. l = int i \<and> d = dp (i, fm) \<and> d \<noteq> PInf))"
  using assms unfolding select_last_def
proof (induction n arbitrary: d l)
  case 0
  then show ?case by simp
next
  case (Suc k)
  let ?step = "\<lambda>i (min_distance, last_node).
             if dp (i, fm) < min_distance then (dp (i, fm), int i)
             else (min_distance, last_node)"
  obtain d0 l0 where prev: "fold ?step [0..<k] (PInf, - 1) = (d0, l0)"
    by (cases "fold ?step [0..<k] (PInf, - 1)")
  from Suc.IH[OF prev] have lo: "\<forall>i<k. d0 \<le> dp (i, fm)"
    and arg: "(l0 = - 1 \<and> d0 = PInf) \<or> (\<exists>i<k. l0 = int i \<and> d0 = dp (i, fm) \<and> d0 \<noteq> PInf)"
    by blast+
  from Suc.prems have res: "(d, l) = (if dp (k, fm) < d0 then (dp (k, fm), int k) else (d0, l0))"
    unfolding fold_upt_Suc prev by simp
  show ?case
  proof (cases "dp (k, fm) < d0")
    case True
    with res have d: "d = dp (k, fm)" and l: "l = int k" by simp_all
    from True have "d \<noteq> PInf" unfolding d by (metis fl_le_PInf not_less)
    moreover have "\<forall>i<Suc k. d \<le> dp (i, fm)"
      using lo True unfolding d by (auto simp: less_Suc_eq)
    ultimately show ?thesis using d l by auto
  next
    case False
    with res have d: "d = d0" and l: "l = l0" by simp_all
    have "\<forall>i<Suc k. d \<le> dp (i, fm)"
      using lo False unfolding d by (auto simp: less_Suc_eq)
    moreover have "(l = - 1 \<and> d = PInf) \<or> (\<exists>i<Suc k. l = int i \<and> d = dp (i, fm) \<and> d \<noteq> PInf)"
      using arg unfolding d l by (auto simp: less_Suc_eq)
    ultimately show ?thesis by simp
  qed
qed


lemma full_mask_bits: "bit (2 ^ n - Suc 0 :: nat) i \<longleftrightarrow> i < n"
proof -
  have "(2 ^ n - Suc 0 :: nat) = mask n" by (simp add: mask_eq_exp_minus_1)
  then show ?thesis by (simp add: bit_mask_iff)
qed

lemma in_insert_everywhere:
  "r \<in> set (insert_everywhere x q) \<longleftrightarrow> (\<exists>a b. r = a @ x # b \<and> q = a @ b)"
proof (induction q arbitrary: r)
  case Nil
  show ?case
  proof
    assume "r \<in> set (insert_everywhere x [])"
    then have "r = [] @ x # []" by simp
    then show "\<exists>a b. r = a @ x # b \<and> [] = a @ b"
      by (intro exI[of _ "[]"]) simp
  next
    assume "\<exists>a b. r = a @ x # b \<and> [] = a @ b"
    then obtain a b where "r = a @ x # b" "[] = a @ b" by blast
    then have "r = [x]" by simp
    then show "r \<in> set (insert_everywhere x [])" by simp
  qed
next
  case (Cons y ys)
  show ?case
  proof
    assume "r \<in> set (insert_everywhere x (y # ys))"
    then consider "r = x # y # ys" | r' where "r = y # r'" "r' \<in> set (insert_everywhere x ys)"
      by auto
    then show "\<exists>a b. r = a @ x # b \<and> y # ys = a @ b"
    proof cases
      case 1
      then show ?thesis by (intro exI[of _ "[]"] exI[of _ "y # ys"]) simp
    next
      case 2
      from 2(2) Cons.IH[of r'] obtain a b where "r' = a @ x # b" "ys = a @ b" by blast
      with 2(1) show ?thesis by (intro exI[of _ "y # a"] exI[of _ b]) simp
    qed
  next
    assume "\<exists>a b. r = a @ x # b \<and> y # ys = a @ b"
    then obtain a b where r: "r = a @ x # b" and ab: "y # ys = a @ b" by blast
    show "r \<in> set (insert_everywhere x (y # ys))"
    proof (cases a)
      case Nil
      with ab have "b = y # ys" by simp
      with r Nil show ?thesis by simp
    next
      case (Cons a0 a')
      with ab have a0: "a0 = y" and ys: "ys = a' @ b" by simp_all
      have "\<exists>c d. a' @ x # b = c @ x # d \<and> ys = c @ d"
        using ys by (intro exI[of _ a'] exI[of _ b]) simp
      then have "a' @ x # b \<in> set (insert_everywhere x ys)"
        by (simp only: Cons.IH[of "a' @ x # b"])
      with r Cons a0 show ?thesis by simp
    qed
  qed
qed

lemma set_orderings: "set (orderings xs) = {q. mset q = mset xs}"
proof (induction xs)
  case Nil
  then show ?case by simp
next
  case (Cons x xs)
  show ?case
  proof (intro set_eqI iffI)
    fix r
    assume "r \<in> set (orderings (x # xs))"
    then obtain q where q: "q \<in> set (orderings xs)" and r: "r \<in> set (insert_everywhere x q)"
      by auto
    from r obtain a b where ab: "r = a @ x # b" "q = a @ b"
      unfolding in_insert_everywhere by blast
    from q Cons.IH have "mset q = mset xs" by simp
    with ab have "mset r = mset (x # xs)" by simp
    then show "r \<in> {q. mset q = mset (x # xs)}" by simp
  next
    fix r
    assume "r \<in> {q. mset q = mset (x # xs)}"
    then have mr: "mset r = mset (x # xs)" by simp
    then have "set r = set (x # xs)" by (rule mset_eq_setD)
    then have "x \<in> set r" by simp
    then have "\<exists>a b. r = a @ x # b" by (rule split_list)
    then obtain a b where r: "r = a @ x # b" by blast
    with mr have "mset (a @ b) = mset xs" by simp
    with Cons.IH have "a @ b \<in> set (orderings xs)" by simp
    moreover have "r \<in> set (insert_everywhere x (a @ b))"
      unfolding in_insert_everywhere r by (intro exI[of _ a] exI[of _ b]) simp
    ultimately show "r \<in> set (orderings (x # xs))" by auto
  qed
qed

lemma index_permutation:
  assumes "mset q = mset (map f idx)"
  shows "\<exists>p. mset p = mset idx \<and> map f p = q"
  using assms
proof (induction q arbitrary: idx)
  case Nil
  then show ?case by simp
next
  case (Cons x q)
  from Cons.prems have "set (x # q) = set (map f idx)" by (rule mset_eq_setD)
  then have "x \<in> f ` set idx" by auto
  then obtain i where i: "i \<in> set idx" "f i = x" by blast
  from i(1) have "\<exists>a b. idx = a @ i # b" by (rule split_list)
  then obtain a b where idx: "idx = a @ i # b" by blast
  from Cons.prems have "mset q = mset (map f (a @ b))"
    unfolding idx using i(2) by simp
  from Cons.IH[OF this] obtain p where p: "mset p = mset (a @ b)" "map f p = q" by blast
  then have "mset (i # p) = mset idx \<and> map f (i # p) = x # q"
    unfolding idx using i(2) by simp
  then show ?case by (intro exI[of _ "i # p"])
qed


lemma arrangement_full:
  "arrangement (push_bit n 1 - 1) p \<longleftrightarrow> mset p = mset [0..<n]"
proof -
  have mem: "(\<forall>i. i \<in> set p \<longleftrightarrow> bit (2 ^ n - Suc 0 :: nat) i) \<longleftrightarrow> set p = set [0..<n]"
    unfolding full_mask_bits by (simp add: set_eq_iff)
  have arr: "arrangement (push_bit n 1 - 1) p \<longleftrightarrow> distinct p \<and> set p = set [0..<n]"
    using mem by (simp add: arrangement_iff)
  show ?thesis
  proof
    assume "arrangement (push_bit n 1 - 1) p"
    with arr have "distinct p" and "set p = set [0..<n]" by simp_all
    then show "mset p = mset [0..<n]"
      using set_eq_iff_mset_eq_distinct[of p "[0..<n]"] by simp
  next
    assume a: "mset p = mset [0..<n]"
    then have "set p = set [0..<n]" by (rule mset_eq_setD)
    moreover from a have "distinct p \<longleftrightarrow> distinct [0..<n]" by (rule mset_eq_imp_distinct_iff)
    ultimately show "arrangement (push_bit n 1 - 1) p"
      unfolding arr by simp
  qed
qed

lemma tour_cost_names:
  assumes "mset p = mset [0..<length names]"
  shows "mset (map ((!) names) p) = mset names"
proof -
  have "mset (map ((!) names) p) = mset (map ((!) names) [0..<length names])"
    using assms by simp
  then show ?thesis by (simp add: map_nth)
qed

lemma reconstruct_terminates:
  assumes par: "\<And>v m. par (v, m) = - 1 \<or> (\<exists>u. par (v, m) = int u \<and> u \<noteq> v \<and> bit m u)"
    and start: "l = - 1 \<or> (\<exists>i. l = int i \<and> bit m i)"
  shows "\<exists>r. reconstruct names par acc m l = Some r"
  using start
proof (induction m arbitrary: l acc rule: less_induct)
  case (less m)
  show ?case
  proof (cases "l = - 1")
    case True
    have "reconstruct names par acc m (- 1) = Some acc"
      by (subst reconstruct.simps) (simp only: simp_thms if_False)
    then show ?thesis unfolding True by (rule exI)
  next
    case False
    with less.prems obtain i where i: "l = int i" "bit m i" by blast
    have next_ok: "par (i, m) = - 1 \<or> (\<exists>j. par (i, m) = int j \<and> bit (m XOR push_bit i 1) j)"
      using par[of i m] by (auto simp: bit_xor_exp)
    from less.IH[OF xor_exp_less[OF i(2)] next_ok]
    obtain r where r: "reconstruct names par (acc @ [names ! i]) (m XOR push_bit i 1) (par (i, m))
                      = Some r" by blast
    have "reconstruct names par acc m l
            = reconstruct names par (acc @ [names ! nat l]) (m XOR push_bit (nat l) 1)
                (par (nat l, m))"
      by (subst reconstruct.simps) (simp only: False simp_thms if_True)
    also have "\<dots> = Some r" unfolding i(1) nat_int by (rule r)
    finally show ?thesis by (rule exI)
  qed
qed


lemma held_karp_minimum:
  assumes inv: "hk_inv ds home names (valid_triple (length names)) (dp, par)"
    and n: "0 < length names"
    and sel: "select_last dp (length names) (push_bit (length names) 1 - 1) = (d, l)"
  shows "d = brute_force ds home names"
proof -
  let ?n = "length names"
  let ?full = "push_bit ?n 1 - 1 :: nat"
  let ?S = "set (map (path_length ds home) (orderings names))"
  have full_lt: "?full < 2 ^ ?n" by simp
  from select_last_correct[OF sel]
  have lo: "\<And>i. i < ?n \<Longrightarrow> d \<le> dp (i, ?full)"
    and arg: "(l = - 1 \<and> d = PInf) \<or> (\<exists>i<?n. l = int i \<and> d = dp (i, ?full) \<and> d \<noteq> PInf)"
    by blast+
  have lower: "d \<le> y" if "y \<in> ?S" for y
  proof -
    from that obtain q where q: "q \<in> set (orderings names)" and y: "y = path_length ds home q"
      by auto
    from q have "mset q = mset names" by (simp add: set_orderings)
    then have "mset q = mset (map ((!) names) [0..<?n])" by (simp add: map_nth)
    from index_permutation[OF this] obtain p
      where p: "mset p = mset [0..<?n]" and qp: "map ((!) names) p = q" by blast
    from p have "set p = set [0..<?n]" by (rule mset_eq_setD)
    with n have ne: "p \<noteq> []" and lastn: "last p < ?n"
    proof -
      from \<open>set p = set [0..<?n]\<close> n have "0 \<in> set p" by simp
      then show "p \<noteq> []" by auto
      then have "last p \<in> set p" by simp
      with \<open>set p = set [0..<?n]\<close> show "last p < ?n" by simp
    qed
    from p have arr: "arrangement ?full p" by (simp only: arrangement_full)
    from final_bound[OF inv[unfolded fst_conv] lastn full_lt arr ne refl]
    have "dp (last p, ?full) \<le> tour_cost ds home names p" by simp
    also have "\<dots> = y" unfolding y tour_cost_def qp ..
    finally have "dp (last p, ?full) \<le> y" .
    with lo[OF lastn] show ?thesis by (rule order_trans)
  qed
  have "\<exists>i<?n. d = dp (i, ?full)"
  proof (cases "l = - 1 \<and> d = PInf")
    case True
    with lo[OF n] have "dp (0, ?full) = PInf" by simp
    with True n show ?thesis by (intro exI[of _ 0]) simp
  next
    case False
    with arg show ?thesis by blast
  qed
  then obtain i where i: "i < ?n" and di: "d = dp (i, ?full)" by blast
  from i have bi: "bit ?full i" by (simp add: full_mask_bits)
  from final_attained[OF inv i full_lt bi] obtain p
    where p: "arrangement ?full p" and cost: "dp (i, ?full) = tour_cost ds home names p"
    by auto
  from p have "mset p = mset [0..<?n]" by (simp only: arrangement_full)
  then have "mset (map ((!) names) p) = mset names" by (rule tour_cost_names)
  then have "map ((!) names) p \<in> set (orderings names)" by (simp add: set_orderings)
  then have "path_length ds home (map ((!) names) p) \<in> ?S" by simp
  then have member: "d \<in> ?S" unfolding di cost tour_cost_def .
  have "Min ?S = d"
  proof (rule Min_eqI)
    show "finite ?S" by simp
    show "d \<le> y" if "y \<in> ?S" for y using that by (rule lower)
    show "d \<in> ?S" by (rule member)
  qed
  then show ?thesis unfolding brute_force_def by simp
qed

lemma parent_links:
  assumes "hk_inv ds home names relaxed (dp, par)"
  shows "par (v, m) = - 1 \<or> (\<exists>u. par (v, m) = int u \<and> u \<noteq> v \<and> bit m u)"
proof -
  from assms have "inv_parent (length names) (dp, par)" by (simp add: hk_inv_def)
  then have "par (v, m) = - 1 \<or>
      (\<exists>u<length names. par (v, m) = int u \<and> u \<noteq> v \<and> bit m u \<and> bit m v)"
    unfolding inv_parent_def snd_conv by blast
  then show ?thesis by blast
qed

lemma find_shortest_route_general:
  assumes "2 \<le> length relatives"
    and hk: "held_karp (map name relatives) ds home = Inr (dp, par)"
    and sel: "select_last dp (length relatives) (push_bit (length relatives) 1 - 1) = (d, l)"
    and rec: "reconstruct (map name relatives) par [] (push_bit (length relatives) 1 - 1) l = Some r"
  shows "find_shortest_route relatives ds home
           = Some (Inr \<lparr>rr_route = [home] @ rev r, rr_distance = d\<rparr>)"
proof -
  from assms(1) have "relatives \<noteq> []" "length relatives \<noteq> 1" by auto
  with sel rec show ?thesis
    by (simp add: find_shortest_route_def Let_def hk)
qed

text \<open>
  Claim C1. With at least two destinations and a matrix that holds every pair the
  solver reads, \<open>find_shortest_route\<close> returns, and the distance it reports is the least
  length, over all orderings of the destinations, of the open path from the origin
  through the destinations in that order; no leg back to the origin is counted.
\<close>

theorem find_shortest_route_optimal:
  assumes "2 \<le> length relatives"
    and "matrix_complete ds home (map name relatives)"
  shows "\<exists>r. find_shortest_route relatives ds home
           = Some (Inr \<lparr>rr_route = r,
                        rr_distance = brute_force ds home (map name relatives)\<rparr>)"
proof -
  let ?names = "map name relatives"
  let ?n = "length relatives"
  from held_karp_correct[OF assms(2)] obtain dp par
    where hk: "held_karp ?names ds home = Inr (dp, par)"
      and inv: "hk_inv ds home ?names (valid_triple (length ?names)) (dp, par)"
    by (metis surj_pair)
  obtain d l where sel: "select_last dp ?n (push_bit ?n 1 - 1) = (d, l)"
    by (cases "select_last dp ?n (push_bit ?n 1 - 1)")
  from assms(1) have "0 < ?n" by linarith
  then have pos: "0 < length ?names" by (simp only: length_map)
  from sel have sel': "select_last dp (length ?names) (push_bit (length ?names) 1 - 1) = (d, l)"
    by simp
  have d: "d = brute_force ds home ?names"
    using inv pos sel' by (rule held_karp_minimum)
  from select_last_correct[OF sel]
  have "l = - 1 \<or> (\<exists>i<?n. l = int i)" by blast
  then have start: "l = - 1 \<or> (\<exists>i. l = int i \<and> bit (push_bit ?n 1 - 1 :: nat) i)"
    by (auto simp: full_mask_bits)
  from reconstruct_terminates[of par l "push_bit ?n 1 - 1" ?names "[]",
      OF parent_links[OF inv] start]
  obtain r where rec: "reconstruct ?names par [] (push_bit ?n 1 - 1) l = Some r" by blast
  from find_shortest_route_general[OF assms(1) hk sel rec] d show ?thesis by blast
qed

theorem find_shortest_route_optimal_witness:
  "\<exists>r. find_shortest_route [place ''a'' 0 0, place ''b'' 0 0, place ''c'' 0 0] sample_matrix ''Home''
         = Some (Inr \<lparr>rr_route = r, rr_distance = Fin 6\<rparr>)"
proof -
  have c: "matrix_complete sample_matrix ''Home''
             (map name [place ''a'' 0 0, place ''b'' 0 0, place ''c'' 0 0])"
    by code_simp
  have b: "brute_force sample_matrix ''Home''
             (map name [place ''a'' 0 0, place ''b'' 0 0, place ''c'' 0 0]) = Fin 6"
    by code_simp
  have l: "2 \<le> length [place ''a'' 0 0, place ''b'' 0 0, place ''c'' 0 0]"
    by simp
  from find_shortest_route_optimal[OF l c] show ?thesis unfolding b .
qed


lemma arrangement_Cons:
  assumes "arrangement (m XOR 2 ^ i) p" and "bit m i"
  shows "arrangement m (i # p)"
proof -
  from assms(1) have d: "distinct p" and mem: "\<And>j. j \<in> set p \<longleftrightarrow> bit (m XOR 2 ^ i) j"
    by (simp_all add: arrangement_iff)
  from mem[of i] have "i \<notin> set p" using assms(2) by (simp add: bit_xor_exp)
  with d have "distinct (i # p)" by simp
  moreover have "j \<in> set (i # p) \<longleftrightarrow> bit m j" for j
    using mem[of j] assms(2) by (auto simp: bit_xor_exp)
  ultimately show ?thesis by (simp only: arrangement_iff simp_thms)
qed

lemma reconstruct_stop: "reconstruct names par acc m (- 1) = Some acc"
  by (subst reconstruct.simps) (simp only: simp_thms if_False)

lemma reconstruct_step:
  "reconstruct names par acc m (int i)
     = reconstruct names par (acc @ [names ! i]) (m XOR push_bit i 1) (par (i, m))"
proof -
  have ne: "int i \<noteq> - 1" by simp
  show ?thesis
    by (subst reconstruct.simps) (simp only: ne simp_thms if_True nat_int)
qed

lemma reconstruct_route:
  assumes inv: "inv_parent n (dp, par)"
    and "bit m i" and "dp (i, m) \<noteq> PInf"
  shows "\<exists>p. arrangement m p \<and>
           reconstruct names par acc m (int i) = Some (acc @ map ((!) names) p)"
  using assms(2,3)
proof (induction m arbitrary: i acc rule: less_induct)
  case (less m)
  note parts = inv[unfolded inv_parent_def fst_conv snd_conv]
  note link = parts[THEN conjunct1, rule_format]
  note touched = parts[THEN conjunct2, THEN conjunct1, rule_format]
  note finite_src = parts[THEN conjunct2, THEN conjunct2, rule_format]
  show ?case
  proof (cases "par (i, m) = - 1")
    case True
    with touched[of i m] less.prems(2) have "m = 2 ^ i" by auto
    then have "arrangement m [i]" by (simp add: arrangement_single)
    moreover have "reconstruct names par acc m (int i) = Some (acc @ map ((!) names) [i])"
    proof -
      have "reconstruct names par acc m (int i)
              = reconstruct names par (acc @ [names ! i]) (m XOR push_bit i 1) (par (i, m))"
        by (rule reconstruct_step)
      also have "\<dots> = Some (acc @ [names ! i])" unfolding True by (rule reconstruct_stop)
      finally show ?thesis by simp
    qed
    ultimately show ?thesis by (intro exI[of _ "[i]"]) simp
  next
    case False
    with link[of i m] obtain u where u: "par (i, m) = int u" "bit m u" "u \<noteq> i" by auto
    from finite_src[OF u(1)] have fin: "dp (u, m XOR push_bit i 1) \<noteq> PInf" .
    from u(2,3) have bu: "bit (m XOR push_bit i 1) u" by (simp add: bit_xor_exp)
    from less.IH[OF xor_exp_less[OF less.prems(1)] bu fin, of "acc @ [names ! i]"]
    obtain p where p: "arrangement (m XOR push_bit i 1) p"
      and run: "reconstruct names par (acc @ [names ! i]) (m XOR push_bit i 1) (int u)
                  = Some ((acc @ [names ! i]) @ map ((!) names) p)" by blast
    from p less.prems(1) have "arrangement m (i # p)"
      using arrangement_Cons[of m i p] by simp
    moreover have "reconstruct names par acc m (int i) = Some (acc @ map ((!) names) (i # p))"
    proof -
      have "reconstruct names par acc m (int i)
              = reconstruct names par (acc @ [names ! i]) (m XOR push_bit i 1) (par (i, m))"
        by (rule reconstruct_step)
      also have "\<dots> = Some ((acc @ [names ! i]) @ map ((!) names) p)"
        unfolding u(1) by (rule run)
      finally show ?thesis by simp
    qed
    ultimately show ?thesis by (intro exI[of _ "i # p"]) simp
  qed
qed

text \<open>
  The route itself: when the least path length is finite the returned route is the
  origin followed by every destination once, and when it is infinite the route is the
  origin alone.
\<close>

lemma find_shortest_route_route:
  assumes "2 \<le> length relatives"
    and "matrix_complete ds home (map name relatives)"
  shows "\<exists>r. find_shortest_route relatives ds home
             = Some (Inr \<lparr>rr_route = home # r,
                          rr_distance = brute_force ds home (map name relatives)\<rparr>) \<and>
           (if brute_force ds home (map name relatives) = PInf then r = []
            else mset r = mset (map name relatives))"
proof -
  let ?names = "map name relatives"
  let ?n = "length relatives"
  let ?full = "push_bit ?n 1 - 1 :: nat"
  from held_karp_correct[OF assms(2)] obtain dp par
    where hk: "held_karp ?names ds home = Inr (dp, par)"
      and inv: "hk_inv ds home ?names (valid_triple (length ?names)) (dp, par)"
    by (metis surj_pair)
  obtain d l where sel: "select_last dp ?n ?full = (d, l)"
    by (cases "select_last dp ?n ?full")
  from assms(1) have "0 < ?n" by linarith
  then have pos: "0 < length ?names" by (simp only: length_map)
  from sel have sel': "select_last dp (length ?names) (push_bit (length ?names) 1 - 1) = (d, l)"
    by simp
  have d: "d = brute_force ds home ?names"
    using inv pos sel' by (rule held_karp_minimum)
  from inv have ip: "inv_parent (length ?names) (dp, par)" by (simp add: hk_inv_def)
  from select_last_correct[OF sel]
  consider (none) "l = - 1" "d = PInf"
    | (some) i where "i < ?n" "l = int i" "d = dp (i, ?full)" "d \<noteq> PInf" by blast
  then show ?thesis
  proof cases
    case none
    have rec: "reconstruct ?names par [] ?full l = Some []"
      unfolding none(1) by (rule reconstruct_stop)
    from find_shortest_route_general[OF assms(1) hk sel rec] none(2) d
    show ?thesis by (intro exI[of _ "[]"]) simp
  next
    case some
    from some(1) have bi: "bit ?full i" by (simp add: full_mask_bits)
    from some(3,4) have fin: "dp (i, ?full) \<noteq> PInf" by simp
    from reconstruct_route[OF ip bi fin, of ?names "[]"] obtain p
      where p: "arrangement ?full p"
        and rec: "reconstruct ?names par [] ?full l = Some (map ((!) ?names) p)"
      unfolding some(2) by auto
    from p have "mset p = mset [0..<?n]" by (simp only: arrangement_full)
    then have "mset p = mset [0..<length ?names]" by (simp only: length_map)
    then have "mset (map ((!) ?names) p) = mset ?names" by (rule tour_cost_names)
    then have ms: "mset (rev (map ((!) ?names) p)) = mset ?names" by simp
    from find_shortest_route_general[OF assms(1) hk sel rec] some(4) d ms
    show ?thesis by (intro exI[of _ "rev (map ((!) ?names) p)"]) simp
  qed
qed

text \<open>
  Claim C4 fails on the code when a destination is unreachable. \<open>calculate_distance\<close>
  records \<open>inf\<close> for every pair whose distance cannot be computed. With two
  destinations of which one is unreachable every complete path has length \<open>inf\<close>, no
  table entry of the full mask lies below the initial \<open>inf\<close>, \<open>last_node\<close> stays \<open>-1\<close>,
  and the returned route is the origin alone: neither destination is on it.
\<close>

theorem unreachable_destination_route:
  "find_shortest_route [place ''a'' 1 1, place ''b'' 95 2]
     (calculate_symmetric_distances sample_geodesic [place ''a'' 1 1, place ''b'' 95 2]
        (place ''Home'' 0 0))
     ''Home''
     = Some (Inr \<lparr>rr_route = [''Home''], rr_distance = PInf\<rparr>)"
  by code_simp

end
